theory Spec2Isabelle
  imports Main "HOL-Library.Char_ord"
begin

section \<open>Variable expansion (node.go, replaceVars)\<close>

text \<open>
  \<^verbatim>\<open>replaceVars\<close> is \<^verbatim>\<open>os.Expand\<close> of the Go standard library applied to a
  mapping function that looks the name up in \<^verbatim>\<open>vars\<close> and, for a name that is not a
  key, returns \<^verbatim>\<open>"$" + name\<close>.  \<^verbatim>\<open>os.Expand\<close>, \<^verbatim>\<open>getShellName\<close>,
  \<^verbatim>\<open>isShellSpecialVar\<close> and \<^verbatim>\<open>isAlphaNum\<close> are embedded here as the standard
  library (package os, env.go) defines them.  Go strings are byte sequences and so are
  HOL strings.  Early releases of Go pass an empty name to the mapping function where
  the later ones eat bad syntax or keep a lone dollar sign; they agree on every name
  that is not empty, and only such names occur in the statements below.
\<close>

definition isShellSpecialVar :: "char \<Rightarrow> bool" where
  "isShellSpecialVar c = (c \<in> set ''*#$@!?-0123456789'')"

definition isAlphaNum :: "char \<Rightarrow> bool" where
  "isAlphaNum c = (c = CHR ''_'' \<or> (CHR ''0'' \<le> c \<and> c \<le> CHR ''9'')
      \<or> (CHR ''a'' \<le> c \<and> c \<le> CHR ''z'') \<or> (CHR ''A'' \<le> c \<and> c \<le> CHR ''Z''))"

text \<open>
  The loop \<^verbatim>\<open>for i := 1; i < len(s); i++ { if s[i] == '}' ... }\<close> of getShellName:
  \<open>scanBrace (tl s) 1\<close> is the first index \<open>i \<ge> 1\<close> with \<open>s[i] = '}'\<close>, if any.
\<close>

primrec scanBrace :: "string \<Rightarrow> nat \<Rightarrow> nat option" where
  "scanBrace [] i = None"
| "scanBrace (c # cs) i = (if c = CHR ''}'' then Some i else scanBrace cs (Suc i))"

text \<open>
  \<^verbatim>\<open>getShellName(s)\<close> returns the name that begins \<open>s\<close> and the number of bytes it
  consumed.  It reads \<open>s[0]\<close>, so it is only defined on a non-empty string; Expand
  never calls it on an empty one.
\<close>

fun getShellName :: "string \<Rightarrow> string \<times> nat" where
  "getShellName (c # cs) =
    (if c = CHR ''{'' then
       (if length (c # cs) > 2 \<and> isShellSpecialVar (cs ! 0) \<and> cs ! 1 = CHR ''}''
        then (take 1 cs, 3)
        else (case scanBrace cs 1 of
                Some i \<Rightarrow> if i = 1 then ([], 2) else (take (i - 1) cs, i + 1)
              | None \<Rightarrow> ([], 1)))
     else if isShellSpecialVar c then ([c], 1)
     else (takeWhile isAlphaNum (c # cs), length (takeWhile isAlphaNum (c # cs))))"

text \<open>
  \<^verbatim>\<open>os.Expand(s, mapping)\<close>.  The Go loop walks an index \<open>j\<close> over \<open>s\<close> and copies
  the text since the last expansion; the recursion below is on the suffix \<open>s[j:]\<close> and
  returns what the loop appends from there on.  A dollar sign that ends the string is
  kept (the test \<^verbatim>\<open>j+1 < len(s)\<close>); after a name of width \<open>w\<close> the scan goes on at
  \<open>s[j+1+w:]\<close>.  An empty name with \<open>w > 0\<close> is bad syntax and is eaten, an empty name
  with \<open>w = 0\<close> leaves the dollar sign.
\<close>

function Expand :: "string \<Rightarrow> (string \<Rightarrow> string) \<Rightarrow> string" where
  "Expand [] mapping = []"
| "Expand [c] mapping = [c]"
| "Expand (c # d # s) mapping =
    (if c = CHR ''$'' then
       (case getShellName (d # s) of (name, w) \<Rightarrow>
          (if name = [] \<and> w > 0 then []
           else if name = [] then [c]
           else mapping name) @ Expand (drop w (d # s)) mapping)
     else c # Expand (d # s) mapping)"
  by pat_completeness auto
termination
  by (relation "measure (\<lambda>(s, m). length s)") auto

definition replaceVars :: "string \<Rightarrow> (string \<rightharpoonup> string) \<Rightarrow> string" where
  "replaceVars text vars =
     Expand text (\<lambda>name. case vars name of Some v \<Rightarrow> v | None \<Rightarrow> ''$'' @ name)"

text \<open>
  A template made of literal text and \<^verbatim>\<open>${NAME}\<close> occurrences, used to state what
  replaceVars does to each occurrence.  \<open>render\<close> writes a segment as it stands in the
  template; \<open>expanded\<close> is what the mapping function of replaceVars returns for it.
\<close>

datatype segment = Lit string | Var string

fun render :: "segment \<Rightarrow> string" where
  "render (Lit t) = t"
| "render (Var name) = ''${'' @ name @ ''}''"

fun expanded :: "(string \<rightharpoonup> string) \<Rightarrow> segment \<Rightarrow> string" where
  "expanded vars (Lit t) = t"
| "expanded vars (Var name) = (case vars name of Some v \<Rightarrow> v | None \<Rightarrow> ''$'' @ name)"

fun plain :: "segment \<Rightarrow> bool" where
  "plain (Lit t) = (CHR ''$'' \<notin> set t)"
| "plain (Var name) = (name \<noteq> [] \<and> CHR ''}'' \<notin> set name)"

section \<open>Decimal formatting (strconv.Itoa)\<close>

text \<open>
  \<^verbatim>\<open>strconv.Itoa\<close> of the standard library: the decimal digits of the number, most
  significant first, taken from the digit string by index, with a minus sign in front of
  a negative number.  node.start formats the run index with it.
\<close>

fun formatDigits :: "nat \<Rightarrow> string" where
  "formatDigits n =
     (if n < 10 then [''0123456789'' ! n]
      else formatDigits (n div 10) @ [''0123456789'' ! (n mod 10)])"

declare formatDigits.simps [simp del]

definition Itoa :: "int \<Rightarrow> string" where
  "Itoa i = (if i < 0 then ''-'' @ formatDigits (nat (- i)) else formatDigits (nat i))"

section \<open>The data model (node.go)\<close>

text \<open>
  A \<^verbatim>\<open>*nodeRun\<close> is an address into a store of runs: \<^verbatim>\<open>node.Active\<close> and the
  elements of \<^verbatim>\<open>node.Runs\<close> are pointers to the same objects, and stop, pause and
  resume mutate the object they point to.
\<close>

type_synonym addr = nat

datatype stream = Out | Err

datatype signal = SIGKILL | SIGSTOP | SIGCONT

text \<open>
  What the code does to the outside world, in the order it does it: a sink file created
  for a run's stream, a process started for a run, a sink closed, a value sent on (and
  received from) the run's exit channel, a signal delivered to a process.
\<close>

datatype event =
    SinkOpened addr stream string
  | ProcStarted addr int
  | SinkClosed addr stream
  | NotifySent addr
  | Signalled int signal

text \<open>
  How a call ends.  \<open>Returned\<close>: it returns.  \<open>Blocked\<close>: the calling goroutine
  blocks for ever on a channel send that nobody receives.  \<open>Panicked\<close>: a run-time panic
  (a method called on a nil interface, an index out of range).  \<open>Fatal\<close>:
  \<^verbatim>\<open>log.Fatalf\<close>, which prints and calls \<^verbatim>\<open>os.Exit(1)\<close>, ending the whole
  application.  Each carries the state reached at that point.
\<close>

datatype 'a outcome = Returned 'a | Blocked 'a | Panicked 'a | Fatal 'a

fun world_of :: "'a outcome \<Rightarrow> 'a" where
  "world_of (Returned s) = s"
| "world_of (Blocked s) = s"
| "world_of (Panicked s) = s"
| "world_of (Fatal s) = s"

fun is_Returned :: "'a outcome \<Rightarrow> bool" where
  "is_Returned (Returned s) = True"
| "is_Returned (Blocked s) = False"
| "is_Returned (Panicked s) = False"
| "is_Returned (Fatal s) = False"

fun is_Fatal :: "'a outcome \<Rightarrow> bool" where
  "is_Fatal (Returned s) = False"
| "is_Fatal (Blocked s) = False"
| "is_Fatal (Panicked s) = False"
| "is_Fatal (Fatal s) = True"

fun is_Panicked :: "'a outcome \<Rightarrow> bool" where
  "is_Panicked (Returned s) = False"
| "is_Panicked (Blocked s) = False"
| "is_Panicked (Panicked s) = True"
| "is_Panicked (Fatal s) = False"

text \<open>Statements in sequence: the next one runs only if the one before returned.\<close>

definition then_do :: "'s outcome \<Rightarrow> ('s \<Rightarrow> 's outcome) \<Rightarrow> 's outcome" where
  "then_do x f = (case x of Returned s \<Rightarrow> f s | Blocked s \<Rightarrow> Blocked s
                   | Panicked s \<Rightarrow> Panicked s | Fatal s \<Rightarrow> Fatal s)"

fun seq :: "('s \<Rightarrow> 's outcome) list \<Rightarrow> 's \<Rightarrow> 's outcome" where
  "seq [] s = Returned s"
| "seq (f # fs) s = then_do (f s) (seq fs)"

text \<open>
  The answers of the operating system at the time of a call: whether
  \<^verbatim>\<open>os.Create(path)\<close> succeeds, what \<^verbatim>\<open>exec.Cmd.Start\<close> returns for an argument
  list and environment (an error message, or the pid of the new process), the clock,
  \<^verbatim>\<open>user.Current()\<close> (None when it returns an error) and
  \<^verbatim>\<open>os.Getenv("PATH")\<close>.
\<close>

record os_user =
  Username :: string
  Uid :: string
  Gid :: string
  HomeDir :: string

record os_env =
  create_ok :: "string \<Rightarrow> bool"
  cmd_start :: "string list \<Rightarrow> (string \<rightharpoonup> string) \<Rightarrow> string + int"
  now :: nat
  user_Current :: "os_user option"
  getenv_PATH :: string

text \<open>
  \<^verbatim>\<open>fileLogWriter\<close> is the only implementation of the interface \<^verbatim>\<open>logWriter\<close>;
  a value of the interface type is \<open>None\<close> when it is the nil interface.  Of
  \<^verbatim>\<open>exec.Cmd\<close> and \<^verbatim>\<open>os.Process\<close> the fields the code reads and writes are kept;
  the \<^verbatim>\<open>k=v\<close> entries appended to \<^verbatim>\<open>Cmd.Env\<close> are the run's \<open>Env\<close>, which is
  handed to \<open>cmd_start\<close>.  \<^verbatim>\<open>nodeRun.WaitStatus\<close> is never assigned and is left out.
  A time is a reading of the clock, \<open>None\<close> for the zero time; the process state
  is the exit status, \<open>None\<close> until \<^verbatim>\<open>Cmd.Wait\<close> has set it.
\<close>

record fileLogWriter =
  filename :: string

record os_Process =
  Pid :: int

record exec_Cmd =
  Path :: string
  Args :: "string list"
  Stdout :: "fileLogWriter option"
  Stderr :: "fileLogWriter option"
  Process :: "os_Process option"
  ProcessState :: "int option"

record nodeRun =
  ID :: int
  Cmd :: "exec_Cmd option"
  Error :: "string option"
  Started :: "nat option"
  Stopped :: "nat option"
  Args :: "string list"
  Attrs :: string
  Locality :: string
  Stdout :: string
  Stderr :: string
  StdoutBuf :: "fileLogWriter option"
  StderrBuf :: "fileLogWriter option"
  Env :: "string \<rightharpoonup> string"
  Paused :: bool

record node =
  Name :: string
  Args :: "string list"
  Env :: "string \<rightharpoonup> string"
  Stdout :: string
  Stderr :: string
  URL :: string
  Attrs :: string
  Locality :: string
  Active :: "addr option"
  Runs :: "addr list"
  Service :: bool

text \<open>
  A node together with the store that holds its runs, the next free address, the number
  of completion handlers that are sleeping before they restart the node, and the events
  so far.
\<close>

record world =
  the_node :: node
  heap :: "addr \<rightharpoonup> nodeRun"
  next_addr :: addr
  restarts :: nat
  events :: "event list"

type_synonym run_state = "nodeRun \<times> event list"

section \<open>A run (node.go, nodeRun)\<close>

text \<open>
  \<^verbatim>\<open>newFileLogWriter(file)\<close>: \<^verbatim>\<open>os.Create\<close>; \<open>None\<close> is the error return.
\<close>

definition newFileLogWriter :: "os_env \<Rightarrow> string \<Rightarrow> fileLogWriter option" where
  "newFileLogWriter os file = (if create_ok os file then Some \<lparr>filename = file\<rparr> else None)"

text \<open>
  The statements of \<^verbatim>\<open>nodeRun.start\<close>, one definition each, on the run \<open>r\<close> at
  address \<open>a\<close> and the events so far.  Lines 61 to 67: a sink is opened only for a
  non-empty path, and a path that cannot be created ends in \<^verbatim>\<open>log.Fatalf\<close>.
\<close>

definition open_stdout :: "os_env \<Rightarrow> addr \<Rightarrow> run_state \<Rightarrow> run_state outcome" where
  "open_stdout os a s = (case s of (r, t) \<Rightarrow>
     if length (nodeRun.Stdout r) > 0 then
       (case newFileLogWriter os (nodeRun.Stdout r) of
          None \<Rightarrow> Fatal (r, t)
        | Some wr \<Rightarrow>
            Returned (r\<lparr>StdoutBuf := Some wr\<rparr>, t @ [SinkOpened a Out (nodeRun.Stdout r)]))
     else Returned (r, t))"

text \<open>Line 68, \<^verbatim>\<open>r.Cmd.Stdout = r.StdoutBuf\<close>: a nil \<^verbatim>\<open>r.Cmd\<close> panics.\<close>

definition attach_stdout :: "run_state \<Rightarrow> run_state outcome" where
  "attach_stdout s = (case s of (r, t) \<Rightarrow>
     (case Cmd r of
        None \<Rightarrow> Panicked (r, t)
      | Some c \<Rightarrow> Returned (r\<lparr>Cmd := Some (c\<lparr>exec_Cmd.Stdout := StdoutBuf r\<rparr>)\<rparr>, t)))"

text \<open>Lines 70 to 77, the same for standard error.\<close>

definition open_stderr :: "os_env \<Rightarrow> addr \<Rightarrow> run_state \<Rightarrow> run_state outcome" where
  "open_stderr os a s = (case s of (r, t) \<Rightarrow>
     if length (nodeRun.Stderr r) > 0 then
       (case newFileLogWriter os (nodeRun.Stderr r) of
          None \<Rightarrow> Fatal (r, t)
        | Some wr \<Rightarrow>
            Returned (r\<lparr>StderrBuf := Some wr\<rparr>, t @ [SinkOpened a Err (nodeRun.Stderr r)]))
     else Returned (r, t))"

definition attach_stderr :: "run_state \<Rightarrow> run_state outcome" where
  "attach_stderr s = (case s of (r, t) \<Rightarrow>
     (case Cmd r of
        None \<Rightarrow> Panicked (r, t)
      | Some c \<Rightarrow> Returned (r\<lparr>Cmd := Some (c\<lparr>exec_Cmd.Stderr := StderrBuf r\<rparr>)\<rparr>, t)))"

text \<open>
  \<^verbatim>\<open>r.StdoutBuf.Close()\<close> and \<^verbatim>\<open>r.StderrBuf.Close()\<close> (lines 90, 91 and 98, 99):
  a method call on an interface value, which panics when the value is the nil interface.
\<close>

definition close_stdout :: "addr \<Rightarrow> run_state \<Rightarrow> run_state outcome" where
  "close_stdout a s = (case s of (r, t) \<Rightarrow>
     (case StdoutBuf r of
        None \<Rightarrow> Panicked (r, t)
      | Some wr \<Rightarrow> Returned (r, t @ [SinkClosed a Out])))"

definition close_stderr :: "addr \<Rightarrow> run_state \<Rightarrow> run_state outcome" where
  "close_stderr a s = (case s of (r, t) \<Rightarrow>
     (case StderrBuf r of
        None \<Rightarrow> Panicked (r, t)
      | Some wr \<Rightarrow> Returned (r, t @ [SinkClosed a Err])))"

text \<open>
  \<^verbatim>\<open>exitCh <- struct{}{}\<close> (lines 92 and 108).  The channel is unbuffered, so the
  send completes when a goroutine receives from it and blocks as long as none does;
  \<open>receiving\<close> says whether a goroutine is receiving on \<open>exitCh\<close>.
\<close>

definition send_exitCh :: "bool \<Rightarrow> addr \<Rightarrow> run_state \<Rightarrow> run_state outcome" where
  "send_exitCh receiving a s = (case s of (r, t) \<Rightarrow>
     if receiving then Returned (r, t @ [NotifySent a]) else Blocked (r, t))"

text \<open>
  Lines 83 to 94: \<^verbatim>\<open>r.Cmd.Start()\<close>.  On success the process handle is set.  On
  an error the run records it, closes both sinks and sends on the exit channel.
\<close>

definition cmd_Start :: "os_env \<Rightarrow> bool \<Rightarrow> addr \<Rightarrow> run_state \<Rightarrow> run_state outcome" where
  "cmd_Start os receiving a s = (case s of (r, t) \<Rightarrow>
     (case Cmd r of
        None \<Rightarrow> Panicked (r, t)
      | Some c \<Rightarrow>
         (case cmd_start os (exec_Cmd.Args c) (nodeRun.Env r) of
            Inr pid \<Rightarrow>
              Returned (r\<lparr>Cmd := Some (c\<lparr>Process := Some \<lparr>Pid = pid\<rparr>\<rparr>)\<rparr>,
                        t @ [ProcStarted a pid])
          | Inl err \<Rightarrow>
              seq [close_stdout a, close_stderr a, send_exitCh receiving a]
                  (r\<lparr>Error := Some err\<rparr>, t))))"

text \<open>
  \<^verbatim>\<open>nodeRun.start(exitCh)\<close>, lines 58 to 94.  When it returns after a successful
  \<^verbatim>\<open>Cmd.Start\<close> it has launched the goroutine of lines 95 to 109, which is
  \<open>nodeRun_wait\<close> below.
\<close>

definition nodeRun_start :: "os_env \<Rightarrow> bool \<Rightarrow> addr \<Rightarrow> nodeRun \<Rightarrow> run_state outcome" where
  "nodeRun_start os receiving a r =
     seq [open_stdout os a, attach_stdout, open_stderr os a, attach_stderr,
          cmd_Start os receiving a]
         (r\<lparr>Started := Some (now os)\<rparr>, [])"

text \<open>
  The goroutine of lines 95 to 109, run when the process exits with status \<open>st\<close>:
  \<^verbatim>\<open>Cmd.Wait\<close> sets the process state, both sinks are closed, the stop time is set and
  a value is sent on the exit channel.
\<close>

definition nodeRun_wait :: "os_env \<Rightarrow> bool \<Rightarrow> int \<Rightarrow> addr \<Rightarrow> nodeRun \<Rightarrow> run_state outcome" where
  "nodeRun_wait os receiving st a r =
     (case Cmd r of
        None \<Rightarrow> Panicked (r, [])
      | Some c \<Rightarrow>
          seq [close_stdout a, close_stderr a,
               (\<lambda>s. case s of (r', t) \<Rightarrow> Returned (r'\<lparr>Stopped := Some (now os)\<rparr>, t)),
               send_exitCh receiving a]
              (r\<lparr>Cmd := Some (c\<lparr>ProcessState := Some st\<rparr>)\<rparr>, []))"

text \<open>
  \<^verbatim>\<open>nodeRun.stop\<close>, \<^verbatim>\<open>pause\<close> and \<^verbatim>\<open>resume\<close> (lines 112 to 137).  The guard is
  \<^verbatim>\<open>r.Cmd == nil || r.Cmd.Process == nil\<close>; the error that \<^verbatim>\<open>Kill\<close> or
  \<^verbatim>\<open>Signal\<close> returns is ignored.
\<close>

definition nodeRun_stop :: "nodeRun \<Rightarrow> run_state" where
  "nodeRun_stop r =
     (case Cmd r of
        None \<Rightarrow> (r, [])
      | Some c \<Rightarrow>
         (case Process c of
            None \<Rightarrow> (r, [])
          | Some p \<Rightarrow> (r\<lparr>Paused := False\<rparr>, [Signalled (Pid p) SIGKILL])))"

definition nodeRun_pause :: "nodeRun \<Rightarrow> run_state" where
  "nodeRun_pause r =
     (case Cmd r of
        None \<Rightarrow> (r, [])
      | Some c \<Rightarrow>
         (case Process c of
            None \<Rightarrow> (r, [])
          | Some p \<Rightarrow> (r\<lparr>Paused := True\<rparr>, [Signalled (Pid p) SIGSTOP])))"

definition nodeRun_resume :: "nodeRun \<Rightarrow> run_state" where
  "nodeRun_resume r =
     (case Cmd r of
        None \<Rightarrow> (r, [])
      | Some c \<Rightarrow>
         (case Process c of
            None \<Rightarrow> (r, [])
          | Some p \<Rightarrow> (r\<lparr>Paused := False\<rparr>, [Signalled (Pid p) SIGCONT])))"

section \<open>A node (node.go, node)\<close>

text \<open>Storing a run back at its address and appending the events of the call.\<close>

definition commit :: "world \<Rightarrow> addr \<Rightarrow> run_state \<Rightarrow> world" where
  "commit w a s = (case s of (r, t) \<Rightarrow> w\<lparr>heap := (heap w)(a \<mapsto> r), events := events w @ t\<rparr>)"

text \<open>
  The run that \<^verbatim>\<open>node.start\<close> builds on lines 233 to 255: its index is the length
  of \<^verbatim>\<open>n.Runs\<close>, its arguments are the node's with the node's variables expanded,
  its output paths are the node's with \<^verbatim>\<open>RUN\<close> bound to the index.  The fields the
  composite literal does not name have their zero value.  \<open>node_start\<close> builds the
  run only for a non-empty argument list, where \<open>hd args\<close> is \<^verbatim>\<open>args[0]\<close>.
\<close>

definition new_run :: "node \<Rightarrow> nodeRun" where
  "new_run n =
    (let run = int (length (Runs n));
         args = map (\<lambda>x. replaceVars x (node.Env n)) (node.Args n);
         cmd = \<lparr>Path = hd args, exec_Cmd.Args = args, exec_Cmd.Stdout = None,
                exec_Cmd.Stderr = None, Process = None, ProcessState = None\<rparr>;
         vars = [''RUN'' \<mapsto> Itoa run];
         stdout = replaceVars (node.Stdout n) vars;
         stderr = replaceVars (node.Stderr n) vars
     in \<lparr>ID = run, Cmd = Some cmd, Error = None, Started = None, Stopped = None,
          nodeRun.Args = args, nodeRun.Attrs = [], nodeRun.Locality = [],
          nodeRun.Stdout = stdout, nodeRun.Stderr = stderr,
          StdoutBuf = None, StderrBuf = None, nodeRun.Env = node.Env n,
          Paused = False\<rparr>)"

text \<open>
  \<^verbatim>\<open>node.start\<close>, lines 228 to 259.  It returns at once when \<^verbatim>\<open>n.Active\<close> is
  set.  \<^verbatim>\<open>args[0]\<close> panics when the argument list is empty.  The new run is
  allocated, made the active run and appended to \<^verbatim>\<open>n.Runs\<close> before it is started.
  The channel \<^verbatim>\<open>c\<close> is made unbuffered on line 258 and the goroutine that receives
  from it is launched on line 260, after \<^verbatim>\<open>n.Active.start(c)\<close> has returned: while
  \<^verbatim>\<open>nodeRun.start\<close> runs, no goroutine is receiving.
\<close>

definition node_start :: "os_env \<Rightarrow> world \<Rightarrow> world outcome" where
  "node_start os w =
    (let n = the_node w in
     if Active n \<noteq> None then Returned w
     else if node.Args n = [] then Panicked w
     else
       let a = next_addr w;
           r = new_run n;
           w1 = w\<lparr>the_node := n\<lparr>Active := Some a, Runs := Runs n @ [a]\<rparr>,
                  heap := (heap w)(a \<mapsto> r), next_addr := Suc a\<rparr>
       in map_outcome (commit w1 a) (nodeRun_start os False a r))"

text \<open>
  \<^verbatim>\<open>node.stop\<close>, \<^verbatim>\<open>pause\<close> and \<^verbatim>\<open>resume\<close> (lines 271 to 288).  An address
  that holds no run stands for an invalid pointer; the invariant below shows that the
  active run is always allocated.
\<close>

definition node_stop :: "world \<Rightarrow> world outcome" where
  "node_stop w =
    (case Active (the_node w) of
       None \<Rightarrow> Returned w
     | Some a \<Rightarrow>
        (case heap w a of
           None \<Rightarrow> Panicked w
         | Some r \<Rightarrow>
             Returned ((commit w a (nodeRun_stop r))
                         \<lparr>the_node := (the_node w)\<lparr>Active := None\<rparr>\<rparr>)))"

definition node_pause :: "world \<Rightarrow> world outcome" where
  "node_pause w =
    (case Active (the_node w) of
       None \<Rightarrow> Returned w
     | Some a \<Rightarrow>
        (case heap w a of
           None \<Rightarrow> Panicked w
         | Some r \<Rightarrow> Returned (commit w a (nodeRun_pause r))))"

definition node_resume :: "world \<Rightarrow> world outcome" where
  "node_resume w =
    (case Active (the_node w) of
       None \<Rightarrow> Returned w
     | Some a \<Rightarrow>
        (case heap w a of
           None \<Rightarrow> Panicked w
         | Some r \<Rightarrow> Returned (commit w a (nodeRun_resume r))))"

text \<open>\<^verbatim>\<open>node.Status\<close>, lines 290 to 299.\<close>

definition Status :: "world \<Rightarrow> string" where
  "Status w =
    (case Active (the_node w) of
       None \<Rightarrow> ''Stopped''
     | Some a \<Rightarrow>
        (case heap w a of
           None \<Rightarrow> ''Stopped''
         | Some r \<Rightarrow>
            (case Cmd r of
               None \<Rightarrow> ''Stopped''
             | Some c \<Rightarrow>
                (case Process c of
                   None \<Rightarrow> ''Stopped''
                 | Some p \<Rightarrow>
                     if Pid p > 0 then (if Paused r then ''Paused'' else ''Running'')
                     else ''Stopped''))))"

text \<open>
  \<^verbatim>\<open>addDefaultVars\<close>, lines 301 to 321: each default is stored only when the key is
  absent.
\<close>

definition set_default ::
  "string \<Rightarrow> string \<Rightarrow> (string \<rightharpoonup> string) \<Rightarrow> (string \<rightharpoonup> string)" where
  "set_default k v vars = (if vars k = None then vars(k \<mapsto> v) else vars)"

definition addDefaultVars :: "os_env \<Rightarrow> (string \<rightharpoonup> string) \<Rightarrow> (string \<rightharpoonup> string)" where
  "addDefaultVars os vars =
    (let vars1 = (case user_Current os of
                    None \<Rightarrow> vars
                  | Some u \<Rightarrow>
                      set_default ''HOME'' (HomeDir u)
                        (set_default ''GID'' (Gid u)
                          (set_default ''UID'' (Uid u)
                            (set_default ''USER'' (Username u) vars))))
     in set_default ''PATH'' (getenv_PATH os) vars1)"

text \<open>
  \<^verbatim>\<open>newNode\<close>, lines 187 to 222.  \<open>env\<close> is \<open>None\<close> for a nil map.  The node
  starts with an empty store of its own.
\<close>

definition newNode ::
  "os_env \<Rightarrow> string \<Rightarrow> string list \<Rightarrow> (string \<rightharpoonup> string) option \<Rightarrow> bool \<Rightarrow> string \<Rightarrow> string
     \<Rightarrow> string \<Rightarrow> string \<Rightarrow> world outcome" where
  "newNode os name args env service stdout stderr attributes locality =
    (let env1 = addDefaultVars os (case env of None \<Rightarrow> Map.empty | Some e \<Rightarrow> e);
         stdout1 = replaceVars stdout env1;
         stderr1 = replaceVars stderr env1;
         n = \<lparr>Name = name, node.Args = args, node.Env = env1, node.Stdout = stdout1,
              node.Stderr = stderr1, URL = [], node.Attrs = attributes,
              node.Locality = locality, Active = None, Runs = [], Service = service\<rparr>;
         w = \<lparr>the_node = n, heap = Map.empty, next_addr = 0, restarts = 0, events = []\<rparr>
     in if Service n then node_start os w else Returned w)"

section \<open>Process exit and the operations on a node\<close>

text \<open>
  The goroutine of \<open>nodeRun_wait\<close> exists for a run whose process was started and has
  not been waited for yet.
\<close>

definition waiter_pending :: "nodeRun \<Rightarrow> bool" where
  "waiter_pending r =
    (case Cmd r of
       None \<Rightarrow> False
     | Some c \<Rightarrow> Process c \<noteq> None \<and> ProcessState c = None)"

text \<open>
  The goroutine of \<^verbatim>\<open>node.start\<close>, lines 260 to 268, once it has received from the
  channel: it clears \<^verbatim>\<open>n.Active\<close> and, if the node is a service, sleeps for a second
  and calls \<^verbatim>\<open>n.start()\<close>.  The sleep is where other calls come in between, so the
  handler only counts the restart here and \<open>restart\<close> is the call after the sleep.
\<close>

definition completion_handler :: "world \<Rightarrow> world" where
  "completion_handler w =
     w\<lparr>the_node := (the_node w)\<lparr>Active := None\<rparr>,
       restarts := (if Service (the_node w) then Suc (restarts w) else restarts w)\<rparr>"

text \<open>
  The process of the run at \<open>a\<close> exits with status \<open>st\<close>: its waiting goroutine runs
  and the handler of \<^verbatim>\<open>node.start\<close>, which has been receiving since
  \<^verbatim>\<open>nodeRun.start\<close> returned, takes the notification.  Nothing happens for a run
  that has no waiting goroutine.
\<close>

definition proc_exit :: "os_env \<Rightarrow> int \<Rightarrow> addr \<Rightarrow> world \<Rightarrow> world outcome" where
  "proc_exit os st a w =
    (case heap w a of
       None \<Rightarrow> Returned w
     | Some r \<Rightarrow>
         if waiter_pending r
         then then_do (map_outcome (commit w a) (nodeRun_wait os True st a r))
                      (\<lambda>w'. Returned (completion_handler w'))
         else Returned w)"

definition restart :: "os_env \<Rightarrow> world \<Rightarrow> world outcome" where
  "restart os w =
    (if restarts w > 0 then node_start os (w\<lparr>restarts := restarts w - 1\<rparr>) else Returned w)"

text \<open>
  What can happen to a node, one whole call at a time: the calls of its methods (by
  cluster.go's handlers, which also set \<^verbatim>\<open>Service\<close>), the exit of one of its
  processes, and the delayed restart of a service.  Calls that overlap in time are
  outside this model.  A call that blocks leaves its goroutine behind and the other
  goroutines go on; a panic or \<^verbatim>\<open>log.Fatalf\<close> ends the sequence.
\<close>

datatype op = Start os_env | Stop | Pause | Resume | SetService bool
  | ProcExit os_env int addr | Restart os_env

fun apply_op :: "op \<Rightarrow> world \<Rightarrow> world outcome" where
  "apply_op (Start os) w = node_start os w"
| "apply_op Stop w = node_stop w"
| "apply_op Pause w = node_pause w"
| "apply_op Resume w = node_resume w"
| "apply_op (SetService b) w = Returned (w\<lparr>the_node := (the_node w)\<lparr>Service := b\<rparr>\<rparr>)"
| "apply_op (ProcExit os st a) w = proc_exit os st a w"
| "apply_op (Restart os) w = restart os w"

fun exec :: "op list \<Rightarrow> world \<Rightarrow> world outcome" where
  "exec [] w = Returned w"
| "exec (x # xs) w =
     (case apply_op x w of
        Returned w' \<Rightarrow> exec xs w'
      | Blocked w' \<Rightarrow> exec xs w'
      | Panicked w' \<Rightarrow> Panicked w'
      | Fatal w' \<Rightarrow> Fatal w')"

section \<open>Predicates used in the statements below\<close>

text \<open>
  Two values of a run have the same identity when they agree on the index and on the two
  resolved output paths, the fields no method changes after the run is built.
\<close>

definition same_identity :: "nodeRun \<Rightarrow> nodeRun \<Rightarrow> bool" where
  "same_identity r r' = (ID r' = ID r \<and> nodeRun.Stdout r' = nodeRun.Stdout r
      \<and> nodeRun.Stderr r' = nodeRun.Stderr r)"

text \<open>
  The invariant of a node and its store: the run at position \<open>i\<close> of the history is
  allocated and has index \<open>i\<close>; the active run, if there is one, is the last of the
  history; every address of the history is below the next free address; every run's
  output paths are the node's templates with \<^verbatim>\<open>RUN\<close> bound to its index.
\<close>

definition history_ok :: "world \<Rightarrow> bool" where
  "history_ok w =
    ((\<forall>i < length (Runs (the_node w)).
         \<exists>r. heap w (Runs (the_node w) ! i) = Some r \<and> ID r = int i)
     \<and> (\<forall>a. Active (the_node w) = Some a \<longrightarrow>
            Runs (the_node w) \<noteq> [] \<and> last (Runs (the_node w)) = a)
     \<and> (\<forall>a \<in> set (Runs (the_node w)). a < next_addr w)
     \<and> (\<forall>a r. heap w a = Some r \<longrightarrow>
            nodeRun.Stdout r = replaceVars (node.Stdout (the_node w)) [''RUN'' \<mapsto> Itoa (ID r)]
          \<and> nodeRun.Stderr r = replaceVars (node.Stderr (the_node w)) [''RUN'' \<mapsto> Itoa (ID r)]))"

text \<open>
  A later state of a node extends an earlier one: the history has only grown at its end
  and the output path templates are the same.
\<close>

definition extends :: "world \<Rightarrow> world \<Rightarrow> bool" where
  "extends w w' =
    ((\<exists>new. Runs (the_node w') = Runs (the_node w) @ new)
     \<and> node.Stdout (the_node w') = node.Stdout (the_node w)
     \<and> node.Stderr (the_node w') = node.Stderr (the_node w))"

text \<open>
  The invariant of the events of a node: a run whose completion notification has been
  sent is allocated and has no waiting goroutine any more; every allocated address is
  below the next free address; no run has been notified twice; and both sinks of a run
  were closed before its notification was sent.  A list of events is quiet when it holds
  no notification.
\<close>

definition notify_ok :: "world \<Rightarrow> bool" where
  "notify_ok w =
    ((\<forall>a. NotifySent a \<in> set (events w) \<longrightarrow> (\<exists>r. heap w a = Some r \<and> \<not> waiter_pending r))
     \<and> (\<forall>a. heap w a \<noteq> None \<longrightarrow> a < next_addr w)
     \<and> (\<forall>a. count_list (events w) (NotifySent a) \<le> 1)
     \<and> (\<forall>a pre post. events w = pre @ NotifySent a # post \<longrightarrow>
            SinkClosed a Out \<in> set pre \<and> SinkClosed a Err \<in> set pre))"

definition quiet :: "event list \<Rightarrow> bool" where
  "quiet t = (\<forall>a. NotifySent a \<notin> set t)"

section \<open>Concrete inputs\<close>

text \<open>
  Three operating systems: one where every file can be created and every command starts
  (as process 4242), one where no file can be created, one where no command starts.
\<close>

definition os_fine :: os_env where
  "os_fine = \<lparr>create_ok = (\<lambda>p. True), cmd_start = (\<lambda>args env. Inr 4242), now = 0,
              user_Current = None, getenv_PATH = ''/bin''\<rparr>"

definition os_readonly :: os_env where
  "os_readonly = \<lparr>create_ok = (\<lambda>p. False), cmd_start = (\<lambda>args env. Inr 4242), now = 0,
              user_Current = None, getenv_PATH = ''/bin''\<rparr>"

definition os_noexec :: os_env where
  "os_noexec = \<lparr>create_ok = (\<lambda>p. True), cmd_start = (\<lambda>args env. Inl ''not found''),
              now = 0, user_Current = None, getenv_PATH = ''/bin''\<rparr>"

text \<open>
  The node that cluster.go builds, with its path templates: not yet started
  (\<open>demo_idle\<close>), the run its first start would build (\<open>demo_run\<close>), started by the
  constructor as a service (\<open>demo_start\<close>), after its process has exited and the service
  has been restarted (\<open>demo_mid\<close>), and after a stop and another start (\<open>demo_world\<close>).
\<close>

definition demo_idle :: world where
  "demo_idle = world_of (newNode os_fine ''1'' [''cockroach'', ''start''] None False
                  ''logs/${RUN}.stdout'' ''logs/${RUN}.stderr'' [] [])"

definition demo_run :: nodeRun where
  "demo_run = new_run (the_node demo_idle)"

definition demo_start :: world where
  "demo_start = world_of (newNode os_fine ''1'' [''cockroach'', ''start''] None True
                  ''logs/${RUN}.stdout'' ''logs/${RUN}.stderr'' [] [])"

definition demo_mid :: world where
  "demo_mid = world_of (exec [ProcExit os_fine 0 0, Restart os_fine] demo_start)"

definition demo_world :: world where
  "demo_world = world_of (exec [Stop, Start os_fine] demo_mid)"

text \<open>The same node built without output paths.\<close>

definition demo_nosink :: world where
  "demo_nosink = world_of (newNode os_fine ''1'' [''cockroach'', ''start''] None False
                  [] [] [] [])"

text \<open>
  The service after the process of its first run has exited (\<open>demo_exited\<close>), and the
  node built with an environment that defines \<^verbatim>\<open>RUN\<close>, after one exit and restart
  (\<open>demo_run_in_env\<close>).
\<close>

definition demo_exited :: world where
  "demo_exited = world_of (exec [ProcExit os_fine 0 0] demo_start)"


section \<open>Properties of variable expansion\<close>

lemma Expand_literal: "CHR ''$'' \<notin> set pre \<Longrightarrow> Expand (pre @ s) m = pre @ Expand s m"
proof (induction pre)
  case Nil
  then show ?case by simp
next
  case (Cons c pre)
  then show ?case by (cases "pre @ s") auto
qed

lemma scanBrace_name:
  "CHR ''}'' \<notin> set name \<Longrightarrow> scanBrace (name @ CHR ''}'' # rest) i = Some (i + length name)"
  by (induction name arbitrary: i) auto

lemma getShellName_braced:
  assumes "name \<noteq> []" and "CHR ''}'' \<notin> set name"
  shows "getShellName (CHR ''{'' # name @ CHR ''}'' # rest) = (name, length name + 2)"
proof (cases "isShellSpecialVar (name ! 0) \<and> (name @ CHR ''}'' # rest) ! 1 = CHR ''}''")
  case True
  from assms obtain x xs where nm: "name = x # xs" by (cases name) auto
  with True assms have "xs = []" by (cases xs) auto
  with nm True show ?thesis by simp
next
  case False
  from assms obtain x xs where nm: "name = x # xs" by (cases name) auto
  have "scanBrace (name @ CHR ''}'' # rest) 1 = Some (1 + length name)"
    using assms(2) by (rule scanBrace_name)
  with False nm show ?thesis by (auto simp: nth_append)
qed

lemma Expand_braced:
  assumes "name \<noteq> []" and "CHR ''}'' \<notin> set name"
  shows "Expand (''${'' @ name @ ''}'' @ rest) m = m name @ Expand rest m"
  using assms getShellName_braced[OF assms, of rest] by simp

lemma replaceVars_segment:
  "plain sg \<Longrightarrow> replaceVars (render sg @ rest) vars = expanded vars sg @ replaceVars rest vars"
proof (cases sg)
  case (Lit t)
  then show "plain sg \<Longrightarrow> ?thesis" by (simp add: replaceVars_def Expand_literal)
next
  case (Var name)
  assume "plain sg"
  with Var have "name \<noteq> []" and "CHR ''}'' \<notin> set name" by simp_all
  from Expand_braced[OF this] Var show ?thesis by (simp add: replaceVars_def)
qed

text \<open>
  Claim C1, as amended.  For every template that is a sequence of literal text free of
  dollar signs and of \<^verbatim>\<open>${NAME}\<close> occurrences (the name non-empty and without a
  closing brace), followed by any further text, and for every variable mapping,
  replaceVars replaces each occurrence whose name is a key of the mapping with its value
  and each occurrence whose name is not a key with \<^verbatim>\<open>$NAME\<close>, the dollar sign and
  the name without the braces; the literal text is kept and the further text is expanded
  on its own.  Expand is a total function, so an undefined name never makes it fail.
\<close>

theorem replaceVars_occurrences:
  "\<forall>sg \<in> set segs. plain sg \<Longrightarrow>
   replaceVars (concat (map render segs) @ rest) vars
     = concat (map (expanded vars) segs) @ replaceVars rest vars"
proof (induction segs)
  case Nil
  then show ?case by simp
next
  case (Cons sg segs)
  then have "plain sg" and rest: "\<forall>x \<in> set segs. plain x" by simp_all
  have "replaceVars (concat (map render (sg # segs)) @ rest) vars
          = replaceVars (render sg @ (concat (map render segs) @ rest)) vars"
    by simp
  also have "\<dots> = expanded vars sg @ replaceVars (concat (map render segs) @ rest) vars"
    using \<open>plain sg\<close> by (rule replaceVars_segment)
  also have "\<dots> = expanded vars sg @ concat (map (expanded vars) segs) @ replaceVars rest vars"
    using Cons.IH[OF rest] by simp
  finally show ?case by simp
qed

theorem replaceVars_occurrences_witness:
  "replaceVars ''logs/${RUN}.${EXT}'' [''RUN'' \<mapsto> ''7''] = ''logs/7.$EXT''"
  using replaceVars_occurrences
          [of "[Lit ''logs/'', Var ''RUN'', Lit ''.'', Var ''EXT'']" "[]" "[''RUN'' \<mapsto> ''7'']"]
  by (simp add: replaceVars_def)

text \<open>
  Claim C1 as stated fails: an occurrence whose name is undefined is not left verbatim,
  the braces are dropped.
\<close>

theorem replaceVars_undefined_not_verbatim:
  "replaceVars ''${FOO}'' Map.empty = ''$FOO'' \<and> replaceVars ''${FOO}'' Map.empty \<noteq> ''${FOO}''"
  by (simp add: replaceVars_def isShellSpecialVar_def)

section \<open>Basic facts about the model\<close>

lemmas expand_eval = replaceVars_def isShellSpecialVar_def isAlphaNum_def Itoa_def
  formatDigits.simps

lemmas run_eval = nodeRun_start_def open_stdout_def open_stderr_def attach_stdout_def
  attach_stderr_def cmd_Start_def then_do_def newFileLogWriter_def close_stdout_def
  close_stderr_def send_exitCh_def nodeRun_wait_def nodeRun_stop_def nodeRun_pause_def
  nodeRun_resume_def

lemma the_node_commit [simp]: "the_node (commit w a s) = the_node w"
  by (cases s) (simp add: commit_def)

lemma world_of_map_outcome [simp]: "world_of (map_outcome f x) = f (world_of x)"
  by (cases x) simp_all

lemma node_start_active: "Active (the_node w) \<noteq> None \<Longrightarrow> node_start os w = Returned w"
  by (simp add: node_start_def)

lemma node_start_skip:
  "\<not> (Active (the_node w) = None \<and> node.Args (the_node w) \<noteq> [])
     \<Longrightarrow> world_of (node_start os w) = w"
  by (auto simp: node_start_def Let_def)

lemma node_start_new:
  assumes "Active (the_node w) = None" and "node.Args (the_node w) \<noteq> []"
  shows "node_start os w =
     map_outcome (commit (w\<lparr>the_node := (the_node w)\<lparr>Active := Some (next_addr w),
                                  Runs := Runs (the_node w) @ [next_addr w]\<rparr>,
                            heap := (heap w)(next_addr w \<mapsto> new_run (the_node w)),
                            next_addr := Suc (next_addr w)\<rparr>) (next_addr w))
       (nodeRun_start os False (next_addr w) (new_run (the_node w)))"
  using assms by (simp add: node_start_def Let_def)

lemma node_start_creates:
  assumes "Active (the_node w) = None" and "node.Args (the_node w) \<noteq> []"
  shows "the_node (world_of (node_start os w))
           = (the_node w)\<lparr>Active := Some (next_addr w),
                           Runs := Runs (the_node w) @ [next_addr w]\<rparr>"
  using assms by (simp add: node_start_new)

lemma ID_new_run [simp]: "ID (new_run n) = int (length (Runs n))"
  by (simp add: new_run_def Let_def)

lemma nodeRun_start_returned:
  assumes "nodeRun_start os False a r = Returned (r', t)"
  shows "\<exists>c pid. Cmd r' = Some c \<and> Process c = Some \<lparr>Pid = pid\<rparr>
           \<and> ProcStarted a pid \<in> set t \<and> ID r' = ID r"
  using assms
  by (auto simp: run_eval split: option.splits if_splits sum.splits)

lemma newNode_unfold:
  "newNode os name args env service so se at lo =
     (let env1 = addDefaultVars os (case env of None \<Rightarrow> Map.empty | Some e \<Rightarrow> e);
          w0 = \<lparr>the_node = \<lparr>Name = name, node.Args = args, node.Env = env1,
                   node.Stdout = replaceVars so env1, node.Stderr = replaceVars se env1,
                   URL = [], node.Attrs = at, node.Locality = lo, Active = None,
                   Runs = [], Service = service\<rparr>,
                 heap = Map.empty, next_addr = 0, restarts = 0, events = []\<rparr>
      in if service then node_start os w0 else Returned w0)"
  by (simp add: newNode_def Let_def)

section \<open>The invariant of the run history\<close>

lemma same_identity_start:
  "same_identity r (fst (world_of (nodeRun_start os receiving a r)))"
  by (auto simp: run_eval same_identity_def split: option.splits sum.splits)

lemma same_identity_wait:
  "same_identity r (fst (world_of (nodeRun_wait os receiving st a r)))"
  by (auto simp: run_eval same_identity_def split: option.splits sum.splits)

lemma same_identity_control:
  "same_identity r (fst (nodeRun_stop r))"
  "same_identity r (fst (nodeRun_pause r))"
  "same_identity r (fst (nodeRun_resume r))"
  by (auto simp: run_eval same_identity_def split: option.splits)

lemma history_ok_commit:
  assumes "history_ok w" and "heap w a = Some r" and "same_identity r (fst s)"
  shows "history_ok (commit w a s)"
proof -
  obtain r' t where s: "s = (r', t)" by (cases s)
  with assms(3) have id: "ID r' = ID r" "nodeRun.Stdout r' = nodeRun.Stdout r"
      "nodeRun.Stderr r' = nodeRun.Stderr r"
    by (simp_all add: same_identity_def)
  show ?thesis
    using assms(1,2) id unfolding history_ok_def s commit_def by auto
qed

lemma history_ok_fields:
  "history_ok w \<Longrightarrow> history_ok (w\<lparr>the_node := (the_node w)\<lparr>Active := None\<rparr>\<rparr>)"
  "history_ok w \<Longrightarrow> history_ok (w\<lparr>the_node := (the_node w)\<lparr>Service := b\<rparr>\<rparr>)"
  "history_ok w \<Longrightarrow> history_ok (w\<lparr>restarts := k\<rparr>)"
  by (simp_all add: history_ok_def)

lemma history_ok_alloc:
  assumes "history_ok w"
  shows "history_ok (w\<lparr>the_node := (the_node w)\<lparr>Active := Some (next_addr w),
                                  Runs := Runs (the_node w) @ [next_addr w]\<rparr>,
                         heap := (heap w)(next_addr w \<mapsto> new_run (the_node w)),
                         next_addr := Suc (next_addr w)\<rparr>)"
proof -
  from assms have old: "\<forall>a \<in> set (Runs (the_node w)). a < next_addr w"
    by (simp add: history_ok_def)
  then have fresh:
    "\<And>i. i < length (Runs (the_node w)) \<Longrightarrow> Runs (the_node w) ! i \<noteq> next_addr w"
    by (metis nth_mem less_irrefl)
  show ?thesis
    using assms old fresh unfolding history_ok_def
    by (auto simp: nth_append less_Suc_eq new_run_def Let_def)
qed

lemma history_ok_node_start: "history_ok w \<Longrightarrow> history_ok (world_of (node_start os w))"
proof (cases "Active (the_node w) = None \<and> node.Args (the_node w) \<noteq> []")
  case False
  assume "history_ok w"
  with node_start_skip[OF False] show ?thesis by simp
next
  case True
  assume ok: "history_ok w"
  let ?a = "next_addr w"
  let ?w1 = "w\<lparr>the_node := (the_node w)\<lparr>Active := Some ?a, Runs := Runs (the_node w) @ [?a]\<rparr>,
                heap := (heap w)(?a \<mapsto> new_run (the_node w)), next_addr := Suc ?a\<rparr>"
  from True have eq: "world_of (node_start os w)
      = commit ?w1 ?a (world_of (nodeRun_start os False ?a (new_run (the_node w))))"
    by (simp add: node_start_new)
  have "history_ok ?w1" using ok by (rule history_ok_alloc)
  moreover have "heap ?w1 ?a = Some (new_run (the_node w))" by simp
  ultimately show ?thesis
    unfolding eq by (rule history_ok_commit) (rule same_identity_start)
qed

lemma history_ok_stop: "history_ok w \<Longrightarrow> history_ok (world_of (node_stop w))"
proof (cases "Active (the_node w)")
  case None
  assume "history_ok w"
  with None show ?thesis by (simp add: node_stop_def)
next
  case active: (Some a)
  assume ok: "history_ok w"
  show ?thesis
  proof (cases "heap w a")
    case None
    with active ok show ?thesis by (simp add: node_stop_def)
  next
    case (Some r)
    have "history_ok (commit w a (nodeRun_stop r))"
      using ok Some by (rule history_ok_commit) (rule same_identity_control)
    from history_ok_fields(1)[OF this] Some active
    show ?thesis by (simp add: node_stop_def)
  qed
qed

lemma history_ok_pause: "history_ok w \<Longrightarrow> history_ok (world_of (node_pause w))"
proof (cases "Active (the_node w)")
  case None
  assume "history_ok w"
  with None show ?thesis by (simp add: node_pause_def)
next
  case active: (Some a)
  assume ok: "history_ok w"
  show ?thesis
  proof (cases "heap w a")
    case None
    with active ok show ?thesis by (simp add: node_pause_def)
  next
    case (Some r)
    have "history_ok (commit w a (nodeRun_pause r))"
      using ok Some by (rule history_ok_commit) (rule same_identity_control)
    with Some active show ?thesis by (simp add: node_pause_def)
  qed
qed

lemma history_ok_resume: "history_ok w \<Longrightarrow> history_ok (world_of (node_resume w))"
proof (cases "Active (the_node w)")
  case None
  assume "history_ok w"
  with None show ?thesis by (simp add: node_resume_def)
next
  case active: (Some a)
  assume ok: "history_ok w"
  show ?thesis
  proof (cases "heap w a")
    case None
    with active ok show ?thesis by (simp add: node_resume_def)
  next
    case (Some r)
    have "history_ok (commit w a (nodeRun_resume r))"
      using ok Some by (rule history_ok_commit) (rule same_identity_control)
    with Some active show ?thesis by (simp add: node_resume_def)
  qed
qed

lemma history_ok_proc_exit:
  assumes "history_ok w"
  shows "history_ok (world_of (proc_exit os st a w))"
proof (cases "heap w a")
  case None
  with assms show ?thesis by (simp add: proc_exit_def)
next
  case (Some r)
  show ?thesis
  proof (cases "waiter_pending r")
    case False
    with Some assms show ?thesis by (simp add: proc_exit_def)
  next
    case True
    have c: "history_ok (commit w a (world_of (nodeRun_wait os True st a r)))"
      using assms Some by (rule history_ok_commit) (rule same_identity_wait)
    have h: "history_ok (completion_handler (commit w a (world_of (nodeRun_wait os True st a r))))"
      using c by (simp add: completion_handler_def history_ok_def)
    from Some True c h show ?thesis
      by (cases "nodeRun_wait os True st a r") (simp_all add: proc_exit_def then_do_def)
  qed
qed

lemma history_ok_apply_op: "history_ok w \<Longrightarrow> history_ok (world_of (apply_op x w))"
proof (cases x)
  case (Restart os)
  assume ok: "history_ok w"
  have "history_ok (w\<lparr>restarts := restarts w - 1\<rparr>)" using ok by (rule history_ok_fields)
  then have "history_ok (world_of (node_start os (w\<lparr>restarts := restarts w - 1\<rparr>)))"
    by (rule history_ok_node_start)
  with ok Restart show ?thesis by (simp add: restart_def)
qed (simp_all add: history_ok_node_start history_ok_stop history_ok_pause history_ok_resume
       history_ok_proc_exit history_ok_fields)

lemma history_ok_exec: "history_ok w \<Longrightarrow> history_ok (world_of (exec ops w))"
proof (induction ops arbitrary: w)
  case Nil
  then show ?case by simp
next
  case (Cons x ops)
  from Cons.prems have step: "history_ok (world_of (apply_op x w))"
    by (rule history_ok_apply_op)
  show ?case
  proof (cases "apply_op x w")
    case (Returned w')
    with step Cons.IH[of w'] show ?thesis by simp
  next
    case (Blocked w')
    with step Cons.IH[of w'] show ?thesis by simp
  next
    case (Panicked w')
    with step show ?thesis by simp
  next
    case (Fatal w')
    with step show ?thesis by simp
  qed
qed

lemma history_ok_newNode:
  "history_ok (world_of (newNode os name args env service so se at lo))"
proof -
  define env1 where "env1 = addDefaultVars os (case env of None \<Rightarrow> Map.empty | Some e \<Rightarrow> e)"
  define n where "n = \<lparr>Name = name, node.Args = args, node.Env = env1,
      node.Stdout = replaceVars so env1, node.Stderr = replaceVars se env1, URL = [],
      node.Attrs = at, node.Locality = lo, Active = None, Runs = [], Service = service\<rparr>"
  define w0 where
    "w0 = \<lparr>the_node = n, heap = Map.empty, next_addr = 0, restarts = 0, events = []\<rparr>"
  have ok: "history_ok w0" by (simp add: history_ok_def w0_def n_def)
  have "newNode os name args env service so se at lo
          = (if service then node_start os w0 else Returned w0)"
    by (simp add: newNode_unfold Let_def w0_def n_def env1_def)
  with ok history_ok_node_start[OF ok, of os] show ?thesis by simp
qed

lemma extends_refl [simp]: "extends w w"
  by (simp add: extends_def)

lemma extends_trans: "extends w w' \<Longrightarrow> extends w' w'' \<Longrightarrow> extends w w''"
  by (auto simp: extends_def)

lemma extends_node_start: "extends w (world_of (node_start os w))"
  by (cases "Active (the_node w) = None \<and> node.Args (the_node w) \<noteq> []")
     (simp_all add: node_start_new node_start_skip extends_def)

lemma extends_apply_op: "extends w (world_of (apply_op x w))"
proof (cases x)
  case (Start os)
  then show ?thesis by (simp add: extends_node_start)
next
  case Stop
  then show ?thesis
    by (auto simp: node_stop_def extends_def split: option.splits)
next
  case Pause
  then show ?thesis
    by (auto simp: node_pause_def extends_def split: option.splits)
next
  case Resume
  then show ?thesis
    by (auto simp: node_resume_def extends_def split: option.splits)
next
  case (SetService b)
  then show ?thesis by (simp add: extends_def)
next
  case (ProcExit os st a)
  show ?thesis
  proof (cases "heap w a")
    case None
    with ProcExit show ?thesis by (simp add: proc_exit_def)
  next
    case (Some r)
    with ProcExit show ?thesis
      by (cases "nodeRun_wait os True st a r")
         (simp_all add: proc_exit_def then_do_def completion_handler_def extends_def)
  qed
next
  case (Restart os)
  have "extends w (w\<lparr>restarts := restarts w - 1\<rparr>)" by (simp add: extends_def)
  from extends_trans[OF this extends_node_start] Restart
  show ?thesis by (simp add: restart_def)
qed

lemma extends_exec: "extends w (world_of (exec ops w))"
proof (induction ops arbitrary: w)
  case Nil
  show ?case by simp
next
  case (Cons x ops)
  have step: "extends w (world_of (apply_op x w))" by (rule extends_apply_op)
  show ?case
  proof (cases "apply_op x w")
    case (Returned w')
    with step extends_trans[OF _ Cons.IH[of w']] show ?thesis by simp
  next
    case (Blocked w')
    with step extends_trans[OF _ Cons.IH[of w']] show ?thesis by simp
  next
    case (Panicked w')
    with step show ?thesis by simp
  next
    case (Fatal w')
    with step show ?thesis by simp
  qed
qed


lemma node_start_assigns_index:
  assumes "Active (the_node w) = None" and "node.Args (the_node w) \<noteq> []"
  shows "\<exists>a r. Runs (the_node (world_of (node_start os w))) = Runs (the_node w) @ [a]
            \<and> Active (the_node (world_of (node_start os w))) = Some a
            \<and> heap (world_of (node_start os w)) a = Some r
            \<and> ID r = int (length (Runs (the_node w)))"
proof -
  let ?a = "next_addr w"
  let ?s = "world_of (nodeRun_start os False ?a (new_run (the_node w)))"
  have "same_identity (new_run (the_node w)) (fst ?s)" by (rule same_identity_start)
  then have "ID (fst ?s) = int (length (Runs (the_node w)))"
    by (simp add: same_identity_def)
  then show ?thesis
    using assms by (cases ?s) (simp add: node_start_new commit_def)
qed

section \<open>Decimal formatting is injective; resolving a path template\<close>









section \<open>The invariant of the notifications\<close>

lemma quiet_count: "quiet t \<Longrightarrow> count_list (evs @ t) (NotifySent a) = count_list evs (NotifySent a)"
  by (simp add: quiet_def count_list_0_iff)

lemma quiet_split:
  assumes "quiet t" and "evs @ t = pre @ NotifySent a # post"
  shows "\<exists>post'. evs = pre @ NotifySent a # post'"
proof -
  from assms(2) obtain us where
    "(evs = pre @ us \<and> us @ t = NotifySent a # post) \<or> (evs @ us = pre \<and> t = us @ NotifySent a # post)"
    by (auto simp: append_eq_append_conv2)
  then show ?thesis
  proof
    assume h: "evs = pre @ us \<and> us @ t = NotifySent a # post"
    show ?thesis
    proof (cases us)
      case Nil
      with h assms(1) show ?thesis by (auto simp: quiet_def)
    next
      case (Cons u us')
      with h show ?thesis by auto
    qed
  next
    assume "evs @ us = pre \<and> t = us @ NotifySent a # post"
    with assms(1) show ?thesis by (auto simp: quiet_def)
  qed
qed

lemma quiet_start: "quiet (snd (world_of (nodeRun_start os False a r)))"
  by (auto simp: run_eval quiet_def split: option.splits sum.splits)

lemma quiet_control:
  "quiet (snd (nodeRun_stop r))" "quiet (snd (nodeRun_pause r))" "quiet (snd (nodeRun_resume r))"
  by (auto simp: run_eval quiet_def split: option.splits)

lemma pending_control:
  "waiter_pending (fst (nodeRun_stop r)) = waiter_pending r"
  "waiter_pending (fst (nodeRun_pause r)) = waiter_pending r"
  "waiter_pending (fst (nodeRun_resume r)) = waiter_pending r"
  by (auto simp: run_eval waiter_pending_def split: option.splits)

lemma wait_trace:
  "(\<exists>r'. nodeRun_wait os True st a r
           = Returned (r', [SinkClosed a Out, SinkClosed a Err, NotifySent a])
        \<and> \<not> waiter_pending r')
   \<or> (\<not> is_Returned (nodeRun_wait os True st a r)
        \<and> quiet (snd (world_of (nodeRun_wait os True st a r))))"
  by (auto simp: run_eval quiet_def waiter_pending_def split: option.splits)

lemma notify_ok_quiet_commit:
  assumes ok: "notify_ok w" and h: "heap w a = Some r" and qt: "quiet t"
      and p: "waiter_pending r' \<longrightarrow> NotifySent a \<notin> set (events w)"
  shows "notify_ok (commit w a (r', t))"
proof -
  let ?w = "commit w a (r', t)"
  have ev: "events ?w = events w @ t"
    and hp: "heap ?w = (heap w)(a \<mapsto> r')"
    and nx: "next_addr ?w = next_addr w"
    by (simp_all add: commit_def)
  have n1: "\<exists>r. heap ?w b = Some r \<and> \<not> waiter_pending r"
    if "NotifySent b \<in> set (events ?w)" for b
  proof -
    from that qt have old: "NotifySent b \<in> set (events w)" by (auto simp: ev quiet_def)
    with ok obtain r0 where "heap w b = Some r0" "\<not> waiter_pending r0"
      by (auto simp: notify_ok_def)
    with old p show ?thesis by (cases "b = a") (auto simp: hp)
  qed
  have n5: "b < next_addr ?w" if "heap ?w b \<noteq> None" for b
    using that ok h by (cases "b = a") (auto simp: hp nx notify_ok_def)
  have n2: "count_list (events ?w) (NotifySent b) \<le> 1" for b
    unfolding ev quiet_count[OF qt] using ok by (simp add: notify_ok_def)
  have n3: "SinkClosed b Out \<in> set pre \<and> SinkClosed b Err \<in> set pre"
    if "events ?w = pre @ NotifySent b # post" for b pre post
  proof -
    from that quiet_split[OF qt, of "events w" pre b post]
    obtain post' where "events w = pre @ NotifySent b # post'" by (auto simp: ev)
    with ok show ?thesis by (simp add: notify_ok_def)
  qed
  show ?thesis unfolding notify_ok_def using n1 n5 n2 n3 by blast
qed

lemma unnotified_pending:
  "notify_ok w \<Longrightarrow> heap w a = Some r \<Longrightarrow> waiter_pending r \<Longrightarrow> NotifySent a \<notin> set (events w)"
  by (auto simp: notify_ok_def)

lemma unnotified_fresh: "notify_ok w \<Longrightarrow> NotifySent (next_addr w) \<notin> set (events w)"
  by (fastforce simp: notify_ok_def)

lemma notify_ok_notify_commit:
  assumes ok: "notify_ok w" and h: "heap w a = Some r" and p: "waiter_pending r"
      and np: "\<not> waiter_pending r'"
  shows "notify_ok (commit w a (r', [SinkClosed a Out, SinkClosed a Err, NotifySent a]))"
proof -
  let ?w = "commit w a (r', [SinkClosed a Out, SinkClosed a Err, NotifySent a])"
  have ev: "events ?w = (events w @ [SinkClosed a Out, SinkClosed a Err]) @ [NotifySent a]"
    and hp: "heap ?w = (heap w)(a \<mapsto> r')"
    and nx: "next_addr ?w = next_addr w"
    by (simp_all add: commit_def)
  from unnotified_pending[OF ok h p] have fresh: "NotifySent a \<notin> set (events w)" .
  have n1: "\<exists>r. heap ?w b = Some r \<and> \<not> waiter_pending r"
    if "NotifySent b \<in> set (events ?w)" for b
  proof (cases "b = a")
    case True
    with np show ?thesis by (simp add: hp)
  next
    case False
    with that have "NotifySent b \<in> set (events w)" by (auto simp: ev)
    with ok False show ?thesis by (auto simp: notify_ok_def hp)
  qed
  have n5: "b < next_addr ?w" if "heap ?w b \<noteq> None" for b
    using that ok h by (cases "b = a") (auto simp: hp nx notify_ok_def)
  have n2: "count_list (events ?w) (NotifySent b) \<le> 1" for b
  proof (cases "b = a")
    case True
    with fresh show ?thesis by (simp add: ev count_list_0_iff)
  next
    case False
    with ok show ?thesis by (simp add: ev notify_ok_def)
  qed
  have n3: "SinkClosed b Out \<in> set pre \<and> SinkClosed b Err \<in> set pre"
    if eq: "events ?w = pre @ NotifySent b # post" for b pre post
  proof (cases post rule: rev_cases)
    case Nil
    with eq have "pre = events w @ [SinkClosed a Out, SinkClosed a Err]" and "b = a"
      by (auto simp: ev)
    then show ?thesis by simp
  next
    case (snoc post' x)
    with eq have "events w @ [SinkClosed a Out, SinkClosed a Err] = pre @ NotifySent b # post'"
      by (simp add: ev)
    moreover have "quiet [SinkClosed a Out, SinkClosed a Err]" by (simp add: quiet_def)
    ultimately obtain post'' where "events w = pre @ NotifySent b # post''"
      using quiet_split by blast
    with ok show ?thesis by (simp add: notify_ok_def)
  qed
  show ?thesis unfolding notify_ok_def using n1 n5 n2 n3 by blast
qed

lemma notify_ok_fields:
  "notify_ok w \<Longrightarrow> notify_ok (w\<lparr>the_node := n\<rparr>)"
  "notify_ok w \<Longrightarrow> notify_ok (w\<lparr>restarts := k\<rparr>)"
  by (simp_all add: notify_ok_def)

lemma notify_ok_alloc:
  assumes "notify_ok w"
  shows "notify_ok (w\<lparr>the_node := n, heap := (heap w)(next_addr w \<mapsto> new_run m),
                       next_addr := Suc (next_addr w)\<rparr>)"
proof -
  have np: "\<not> waiter_pending (new_run m)" by (simp add: waiter_pending_def new_run_def Let_def)
  from assms show ?thesis
    unfolding notify_ok_def using np by (auto simp: less_Suc_eq)
qed

lemma notify_ok_node_start: "notify_ok w \<Longrightarrow> notify_ok (world_of (node_start os w))"
proof (cases "Active (the_node w) = None \<and> node.Args (the_node w) \<noteq> []")
  case False
  assume "notify_ok w"
  with node_start_skip[OF False] show ?thesis by simp
next
  case True
  assume ok: "notify_ok w"
  let ?a = "next_addr w"
  let ?w1 = "w\<lparr>the_node := (the_node w)\<lparr>Active := Some ?a, Runs := Runs (the_node w) @ [?a]\<rparr>,
                heap := (heap w)(?a \<mapsto> new_run (the_node w)), next_addr := Suc ?a\<rparr>"
  from True have eq: "world_of (node_start os w)
      = commit ?w1 ?a (world_of (nodeRun_start os False ?a (new_run (the_node w))))"
    by (simp add: node_start_new)
  have ok1: "notify_ok ?w1" using ok by (rule notify_ok_alloc)
  have h: "heap ?w1 ?a = Some (new_run (the_node w))" by simp
  have fresh: "NotifySent ?a \<notin> set (events ?w1)" using unnotified_fresh[OF ok] by simp
  obtain r' t where s: "world_of (nodeRun_start os False ?a (new_run (the_node w))) = (r', t)"
    by (cases "world_of (nodeRun_start os False ?a (new_run (the_node w)))")
  with quiet_start[of os ?a "new_run (the_node w)"] have "quiet t" by simp
  moreover from fresh have "waiter_pending r' \<longrightarrow> NotifySent ?a \<notin> set (events ?w1)"
    by simp
  ultimately have "notify_ok (commit ?w1 ?a (r', t))"
    using ok1 h by (simp add: notify_ok_quiet_commit)
  then show ?thesis unfolding eq s .
qed

lemma notify_ok_control:
  assumes ok: "notify_ok w" and h: "heap w a = Some r"
  shows "notify_ok (commit w a (nodeRun_stop r))"
    and "notify_ok (commit w a (nodeRun_pause r))"
    and "notify_ok (commit w a (nodeRun_resume r))"
proof -
  have keep: "notify_ok (commit w a s)"
    if "quiet (snd s)" and "waiter_pending (fst s) = waiter_pending r" for s
  proof -
    from unnotified_pending[OF ok h] that(2)
    have "waiter_pending (fst s) \<longrightarrow> NotifySent a \<notin> set (events w)" by simp
    with ok h that(1) have "notify_ok (commit w a (fst s, snd s))"
      by (rule notify_ok_quiet_commit)
    then show ?thesis by simp
  qed
  show "notify_ok (commit w a (nodeRun_stop r))"
    by (rule keep) (rule quiet_control pending_control)+
  show "notify_ok (commit w a (nodeRun_pause r))"
    by (rule keep) (rule quiet_control pending_control)+
  show "notify_ok (commit w a (nodeRun_resume r))"
    by (rule keep) (rule quiet_control pending_control)+
qed

lemma notify_ok_stop: "notify_ok w \<Longrightarrow> notify_ok (world_of (node_stop w))"
  by (auto simp: node_stop_def notify_ok_control notify_ok_fields split: option.splits)

lemma notify_ok_pause: "notify_ok w \<Longrightarrow> notify_ok (world_of (node_pause w))"
  by (auto simp: node_pause_def notify_ok_control split: option.splits)

lemma notify_ok_resume: "notify_ok w \<Longrightarrow> notify_ok (world_of (node_resume w))"
  by (auto simp: node_resume_def notify_ok_control split: option.splits)

lemma notify_ok_handler: "notify_ok w \<Longrightarrow> notify_ok (completion_handler w)"
  by (simp add: completion_handler_def notify_ok_def)

lemma notify_ok_proc_exit:
  assumes ok: "notify_ok w"
  shows "notify_ok (world_of (proc_exit os st a w))"
proof (cases "heap w a")
  case None
  with ok show ?thesis by (simp add: proc_exit_def)
next
  case (Some r)
  show ?thesis
  proof (cases "waiter_pending r")
    case False
    with Some ok show ?thesis by (simp add: proc_exit_def)
  next
    case True
    from wait_trace[of os st a r] show ?thesis
    proof
      assume "\<exists>r'. nodeRun_wait os True st a r
           = Returned (r', [SinkClosed a Out, SinkClosed a Err, NotifySent a])
        \<and> \<not> waiter_pending r'"
      then obtain r' where ret: "nodeRun_wait os True st a r
           = Returned (r', [SinkClosed a Out, SinkClosed a Err, NotifySent a])"
        and np: "\<not> waiter_pending r'" by blast
      have "notify_ok (commit w a (r', [SinkClosed a Out, SinkClosed a Err, NotifySent a]))"
        using ok Some True np by (rule notify_ok_notify_commit)
      then have "notify_ok (completion_handler
                   (commit w a (r', [SinkClosed a Out, SinkClosed a Err, NotifySent a])))"
        by (rule notify_ok_handler)
      with Some True ret show ?thesis by (simp add: proc_exit_def then_do_def)
    next
      assume quietly: "\<not> is_Returned (nodeRun_wait os True st a r)
        \<and> quiet (snd (world_of (nodeRun_wait os True st a r)))"
      let ?s = "world_of (nodeRun_wait os True st a r)"
      from quietly have q: "quiet (snd ?s)" by simp
      from unnotified_pending[OF ok Some True]
      have "waiter_pending (fst ?s) \<longrightarrow> NotifySent a \<notin> set (events w)" by simp
      with ok Some q have "notify_ok (commit w a (fst ?s, snd ?s))"
        by (rule notify_ok_quiet_commit)
      then have c: "notify_ok (commit w a ?s)" by simp
      from quietly Some True c show ?thesis
        by (cases "nodeRun_wait os True st a r") (simp_all add: proc_exit_def then_do_def)
    qed
  qed
qed

lemma notify_ok_apply_op: "notify_ok w \<Longrightarrow> notify_ok (world_of (apply_op x w))"
proof (cases x)
  case (Restart os)
  assume ok: "notify_ok w"
  have "notify_ok (w\<lparr>restarts := restarts w - 1\<rparr>)" using ok by (rule notify_ok_fields)
  then have "notify_ok (world_of (node_start os (w\<lparr>restarts := restarts w - 1\<rparr>)))"
    by (rule notify_ok_node_start)
  with ok Restart show ?thesis by (simp add: restart_def)
qed (simp_all add: notify_ok_node_start notify_ok_stop notify_ok_pause notify_ok_resume
       notify_ok_proc_exit notify_ok_fields)

lemma notify_ok_exec: "notify_ok w \<Longrightarrow> notify_ok (world_of (exec ops w))"
proof (induction ops arbitrary: w)
  case Nil
  then show ?case by simp
next
  case (Cons x ops)
  from Cons.prems have step: "notify_ok (world_of (apply_op x w))"
    by (rule notify_ok_apply_op)
  show ?case
  proof (cases "apply_op x w")
    case (Returned w')
    with step Cons.IH[of w'] show ?thesis by simp
  next
    case (Blocked w')
    with step Cons.IH[of w'] show ?thesis by simp
  next
    case (Panicked w')
    with step show ?thesis by simp
  next
    case (Fatal w')
    with step show ?thesis by simp
  qed
qed

lemma notify_ok_newNode:
  "notify_ok (world_of (newNode os name args env service so se at lo))"
proof -
  define env1 where "env1 = addDefaultVars os (case env of None \<Rightarrow> Map.empty | Some e \<Rightarrow> e)"
  define n where "n = \<lparr>Name = name, node.Args = args, node.Env = env1,
      node.Stdout = replaceVars so env1, node.Stderr = replaceVars se env1, URL = [],
      node.Attrs = at, node.Locality = lo, Active = None, Runs = [], Service = service\<rparr>"
  define w0 where
    "w0 = \<lparr>the_node = n, heap = Map.empty, next_addr = 0, restarts = 0, events = []\<rparr>"
  have ok: "notify_ok w0" by (simp add: notify_ok_def w0_def)
  have "newNode os name args env service so se at lo
          = (if service then node_start os w0 else Returned w0)"
    by (simp add: newNode_unfold Let_def w0_def n_def env1_def)
  with ok notify_ok_node_start[OF ok, of os] show ?thesis by simp
qed

section \<open>A sink that cannot be opened\<close>

text \<open>
  Claim C2, as amended.  For every run with a command whose stdout path is non-empty and
  cannot be created, or whose stderr path is non-empty and cannot be created, starting
  the run ends in \<^verbatim>\<open>log.Fatalf\<close>, which terminates the whole application: no error
  is recorded on the run, no process is started and no completion notification is sent.
\<close>

theorem sink_failure_is_fatal:
  assumes "Cmd r = Some c"
      and "(nodeRun.Stdout r \<noteq> [] \<and> \<not> create_ok os (nodeRun.Stdout r))
           \<or> (nodeRun.Stderr r \<noteq> [] \<and> \<not> create_ok os (nodeRun.Stderr r))"
  shows "\<exists>r' t. nodeRun_start os receiving a r = Fatal (r', t) \<and> Error r' = Error r
            \<and> (\<forall>pid. ProcStarted a pid \<notin> set t) \<and> NotifySent a \<notin> set t"
  using assms
  by (auto simp: run_eval split: option.splits)

theorem sink_failure_is_fatal_witness:
  "nodeRun.Stdout demo_run = ''logs/0.stdout'' \<and> \<not> create_ok os_readonly ''logs/0.stdout''
   \<and> (\<exists>r' t. nodeRun_start os_readonly False 0 demo_run = Fatal (r', t)
          \<and> Error r' = None \<and> NotifySent 0 \<notin> set t)"
proof -
  have path: "nodeRun.Stdout demo_run = ''logs/0.stdout''" by code_simp
  have err: "Error demo_run = None" by code_simp
  have ro: "\<not> create_ok os_readonly ''logs/0.stdout''" by (simp add: os_readonly_def)
  have "\<exists>c. Cmd demo_run = Some c" by (simp add: demo_run_def new_run_def Let_def)
  then obtain c where c: "Cmd demo_run = Some c" ..
  from path ro have bad:
    "(nodeRun.Stdout demo_run \<noteq> [] \<and> \<not> create_ok os_readonly (nodeRun.Stdout demo_run))
     \<or> (nodeRun.Stderr demo_run \<noteq> [] \<and> \<not> create_ok os_readonly (nodeRun.Stderr demo_run))"
    by simp
  from sink_failure_is_fatal[OF c bad, of False 0] err path ro
  show ?thesis by auto
qed

text \<open>
  Claim C2 as stated fails: on an operating system where the output files cannot be
  created, starting the node ends the application.
\<close>

theorem sink_failure_terminates_application:
  "is_Fatal (node_start os_readonly demo_idle)
   \<and> events (world_of (node_start os_readonly demo_idle)) = []"
  by code_simp

section \<open>An empty output path\<close>

text \<open>
  Claim C3 at a node built with empty output paths.  Starting it opens no sink (the only
  event is the start of the process) and leaves both writers nil.  When the process then
  exits, or when the command cannot be started, closing the nil writer panics and no
  notification is sent.
\<close>

theorem empty_path_close_panics:
  "map_outcome events (node_start os_fine demo_nosink) = Returned [ProcStarted 0 4242]
   \<and> map_outcome events (exec [Start os_fine, ProcExit os_fine 0 0] demo_nosink)
        = Panicked [ProcStarted 0 4242]
   \<and> map_outcome events (node_start os_noexec demo_nosink) = Panicked []"
  by code_simp

section \<open>Starting a node twice\<close>

text \<open>
  Claim C4.  For every node, start while the active run is set returns with the state
  unchanged: no run is created, nothing is appended to the history, nothing is queued.
  Hence, for a node with no active run and a non-empty argument list, the first of two
  successive starts appends exactly one run and the second changes nothing.
\<close>

theorem node_start_idempotent:
  "(Active (the_node w) \<noteq> None \<longrightarrow> node_start os w = Returned w) \<and>
   (Active (the_node w) = None \<and> node.Args (the_node w) \<noteq> [] \<longrightarrow>
      (let w1 = world_of (node_start os w) in
         length (Runs (the_node w1)) = Suc (length (Runs (the_node w)))
         \<and> node_start os' w1 = Returned w1))"
  by (simp add: node_start_active node_start_creates Let_def)

theorem node_start_idempotent_witness:
  "Active (the_node demo_start) = Some 0
   \<and> node_start os_fine demo_start = Returned demo_start
   \<and> Active (the_node demo_idle) = None
   \<and> length (Runs (the_node (world_of (node_start os_fine demo_idle)))) = 1
   \<and> node_start os_fine (world_of (node_start os_fine demo_idle))
        = Returned (world_of (node_start os_fine demo_idle))"
proof -
  have a1: "Active (the_node demo_start) = Some 0" by code_simp
  have a0: "Active (the_node demo_idle) = None" by code_simp
  have args: "node.Args (the_node demo_idle) \<noteq> []" by code_simp
  have len: "length (Runs (the_node demo_idle)) = 0" by code_simp
  from node_start_idempotent[of demo_start os_fine os_fine] a1
  have one: "node_start os_fine demo_start = Returned demo_start" by simp
  from node_start_idempotent[of demo_idle os_fine os_fine] a0 args len
  have two: "length (Runs (the_node (world_of (node_start os_fine demo_idle)))) = 1
     \<and> node_start os_fine (world_of (node_start os_fine demo_idle))
          = Returned (world_of (node_start os_fine demo_idle))"
    by (simp add: Let_def)
  from a1 one a0 two show ?thesis by simp
qed

section \<open>The run history\<close>

text \<open>
  Claim C5.  Take a node as its constructor leaves it, any sequence of operations on it,
  and any further sequence after that.  Then the run at position \<open>i\<close> of the history has
  index \<open>i\<close>; the active run, if there is one, is the last element of the history; the
  history after the second sequence is the history after the first with runs appended;
  and a start that creates a run appends it with the length of the history as its index
  and makes it the active run.
\<close>

theorem run_history_indexed:
  "let w0 = world_of (newNode os name args env service so se at lo);
       w1 = world_of (exec ops1 w0);
       w2 = world_of (exec ops2 w1)
   in (\<forall>i < length (Runs (the_node w2)).
          \<exists>r. heap w2 (Runs (the_node w2) ! i) = Some r \<and> ID r = int i)
    \<and> (\<forall>a. Active (the_node w2) = Some a \<longrightarrow>
          Runs (the_node w2) \<noteq> [] \<and> last (Runs (the_node w2)) = a)
    \<and> (\<exists>new. Runs (the_node w2) = Runs (the_node w1) @ new)
    \<and> (\<forall>os'. Active (the_node w2) = None \<and> node.Args (the_node w2) \<noteq> [] \<longrightarrow>
          (\<exists>a r. Runs (the_node (world_of (node_start os' w2))) = Runs (the_node w2) @ [a]
             \<and> Active (the_node (world_of (node_start os' w2))) = Some a
             \<and> heap (world_of (node_start os' w2)) a = Some r
             \<and> ID r = int (length (Runs (the_node w2)))))"
proof -
  define w0 where "w0 = world_of (newNode os name args env service so se at lo)"
  define w1 where "w1 = world_of (exec ops1 w0)"
  define w2 where "w2 = world_of (exec ops2 w1)"
  have "history_ok w0" unfolding w0_def by (rule history_ok_newNode)
  then have "history_ok w1" unfolding w1_def by (rule history_ok_exec)
  then have ok: "history_ok w2" unfolding w2_def by (rule history_ok_exec)
  have ext: "extends w1 w2" unfolding w2_def by (rule extends_exec)
  have "(\<forall>i < length (Runs (the_node w2)).
          \<exists>r. heap w2 (Runs (the_node w2) ! i) = Some r \<and> ID r = int i)"
    using ok by (simp add: history_ok_def)
  moreover have "(\<forall>a. Active (the_node w2) = Some a \<longrightarrow>
          Runs (the_node w2) \<noteq> [] \<and> last (Runs (the_node w2)) = a)"
    using ok by (simp add: history_ok_def)
  moreover have "\<exists>new. Runs (the_node w2) = Runs (the_node w1) @ new"
    using ext by (simp add: extends_def)
  moreover have "(\<forall>os'. Active (the_node w2) = None \<and> node.Args (the_node w2) \<noteq> [] \<longrightarrow>
          (\<exists>a r. Runs (the_node (world_of (node_start os' w2))) = Runs (the_node w2) @ [a]
             \<and> Active (the_node (world_of (node_start os' w2))) = Some a
             \<and> heap (world_of (node_start os' w2)) a = Some r
             \<and> ID r = int (length (Runs (the_node w2)))))"
    using node_start_assigns_index by blast
  ultimately show ?thesis
    unfolding Let_def w0_def[symmetric] w1_def[symmetric] w2_def[symmetric] by blast
qed

theorem run_history_indexed_witness:
  "Runs (the_node demo_world) = [0, 1, 2] \<and> Active (the_node demo_world) = Some 2
   \<and> last (Runs (the_node demo_world)) = 2
   \<and> (\<exists>r. heap demo_world (Runs (the_node demo_world) ! 2) = Some r \<and> ID r = 2)
   \<and> (\<exists>new. Runs (the_node demo_world) = Runs (the_node demo_mid) @ new)"
proof -
  have runs: "Runs (the_node demo_world) = [0, 1, 2]" by code_simp
  have act: "Active (the_node demo_world) = Some 2" by code_simp
  have inst: "(\<forall>i < length (Runs (the_node demo_world)).
          \<exists>r. heap demo_world (Runs (the_node demo_world) ! i) = Some r \<and> ID r = int i)
    \<and> (\<forall>a. Active (the_node demo_world) = Some a \<longrightarrow>
          Runs (the_node demo_world) \<noteq> [] \<and> last (Runs (the_node demo_world)) = a)
    \<and> (\<exists>new. Runs (the_node demo_world) = Runs (the_node demo_mid) @ new)"
    using run_history_indexed[of os_fine "''1''" "[''cockroach'', ''start'']" None True
          "''logs/${RUN}.stdout''" "''logs/${RUN}.stderr''" "[]" "[]"
          "[ProcExit os_fine 0 0, Restart os_fine]" "[Stop, Start os_fine]"]
    unfolding Let_def demo_world_def demo_mid_def demo_start_def by blast
  then have "2 < length (Runs (the_node demo_world)) \<longrightarrow>
      (\<exists>r. heap demo_world (Runs (the_node demo_world) ! 2) = Some r \<and> ID r = int 2)"
    by blast
  then have "\<exists>r. heap demo_world (Runs (the_node demo_world) ! 2) = Some r \<and> ID r = 2"
    by (simp add: runs)
  moreover from inst act have "last (Runs (the_node demo_world)) = 2" by blast
  ultimately show ?thesis using runs act inst by simp
qed

section \<open>Control operations without a process handle\<close>

text \<open>
  Claim C6, as amended.  For every run whose command or process handle is nil (the run
  was never spawned, or its launch failed), stop, pause and resume return the run
  unchanged and do nothing.  For every run whose process handle is set, which it still
  is after the process has exited, stop and resume clear the paused flag, pause sets it,
  and each sends its signal.  Stop, pause and resume on a node with no active run return
  the state unchanged.  All of them are total functions: none of them raises.
\<close>

theorem control_noop_without_handle:
  "(Cmd r = None \<or> (\<exists>c. Cmd r = Some c \<and> Process c = None) \<longrightarrow>
      nodeRun_stop r = (r, []) \<and> nodeRun_pause r = (r, []) \<and> nodeRun_resume r = (r, []))
   \<and> (Cmd r' = Some c' \<and> Process c' = Some p \<longrightarrow>
        nodeRun_stop r' = (r'\<lparr>Paused := False\<rparr>, [Signalled (Pid p) SIGKILL])
        \<and> nodeRun_pause r' = (r'\<lparr>Paused := True\<rparr>, [Signalled (Pid p) SIGSTOP])
        \<and> nodeRun_resume r' = (r'\<lparr>Paused := False\<rparr>, [Signalled (Pid p) SIGCONT]))
   \<and> (Active (the_node w) = None \<longrightarrow>
        node_stop w = Returned w \<and> node_pause w = Returned w \<and> node_resume w = Returned w)"
  by (auto simp: nodeRun_stop_def nodeRun_pause_def nodeRun_resume_def node_stop_def
        node_pause_def node_resume_def)

theorem control_noop_without_handle_witness:
  "(\<exists>c. Cmd demo_run = Some c \<and> Process c = None)
   \<and> nodeRun_stop demo_run = (demo_run, []) \<and> nodeRun_pause demo_run = (demo_run, [])
   \<and> nodeRun_resume demo_run = (demo_run, [])
   \<and> (\<exists>c p. Cmd (the (heap demo_exited 0)) = Some c \<and> Process c = Some p
         \<and> nodeRun_pause (the (heap demo_exited 0))
              = ((the (heap demo_exited 0))\<lparr>Paused := True\<rparr>, [Signalled (Pid p) SIGSTOP]))
   \<and> Active (the_node demo_idle) = None \<and> node_stop demo_idle = Returned demo_idle"
proof -
  have h: "\<exists>c. Cmd demo_run = Some c \<and> Process c = None"
    by (simp add: demo_run_def new_run_def Let_def)
  have a0: "Active (the_node demo_idle) = None" by code_simp
  have "case Cmd (the (heap demo_exited 0)) of None \<Rightarrow> False
        | Some c \<Rightarrow> (case Process c of None \<Rightarrow> False | Some p \<Rightarrow> True)"
    by code_simp
  then obtain c p where handle: "Cmd (the (heap demo_exited 0)) = Some c" "Process c = Some p"
    by (auto split: option.splits)
  from control_noop_without_handle[of demo_run "the (heap demo_exited 0)" c p demo_idle]
       h a0 handle
  show ?thesis by blast
qed

text \<open>
  Claim C6 as stated fails for a run that has exited: its process handle is still set,
  so pause sets the paused flag and sends the signal.
\<close>

theorem pause_after_exit_not_noop:
  "heap demo_exited 0 \<noteq> None
   \<and> \<not> waiter_pending (the (heap demo_exited 0))
   \<and> Stopped (the (heap demo_exited 0)) = Some 0
   \<and> \<not> Paused (the (heap demo_exited 0))
   \<and> Paused (fst (nodeRun_pause (the (heap demo_exited 0))))
   \<and> snd (nodeRun_pause (the (heap demo_exited 0))) = [Signalled 4242 SIGSTOP]"
  by code_simp

section \<open>The completion notification\<close>

text \<open>
  Claim C7 at a node whose output files can be created and whose command cannot be
  started.  \<^verbatim>\<open>nodeRun.start\<close> records the error, closes both sinks and reaches the
  send on the exit channel (line 92).  The channel is unbuffered and \<^verbatim>\<open>node.start\<close>
  launches the goroutine that receives from it only after \<^verbatim>\<open>nodeRun.start\<close> has
  returned (line 260), so the send blocks for ever: the run has ended by launch failure,
  no notification is ever delivered for it, it has no waiting goroutine that could send
  one later, and it stays the active run.  The same happens inside the constructor of a
  service.
\<close>

theorem launch_failure_never_notifies:
  "map_outcome events (node_start os_noexec demo_idle)
     = Blocked [SinkOpened 0 Out ''logs/0.stdout'', SinkOpened 0 Err ''logs/0.stderr'',
                SinkClosed 0 Out, SinkClosed 0 Err]
   \<and> count_list (events (world_of (node_start os_noexec demo_idle))) (NotifySent 0) = 0
   \<and> Runs (the_node (world_of (node_start os_noexec demo_idle))) = [0]
   \<and> Active (the_node (world_of (node_start os_noexec demo_idle))) = Some 0
   \<and> map_option Error (heap (world_of (node_start os_noexec demo_idle)) 0)
        = Some (Some ''not found'')
   \<and> map_option waiter_pending (heap (world_of (node_start os_noexec demo_idle)) 0)
        = Some False
   \<and> map_outcome events (newNode os_noexec ''1'' [''cockroach'', ''start''] None True
                            ''logs/${RUN}.stdout'' ''logs/${RUN}.stderr'' [] [])
        = Blocked [SinkOpened 0 Out ''logs/0.stdout'', SinkOpened 0 Err ''logs/0.stderr'',
                   SinkClosed 0 Out, SinkClosed 0 Err]"
  by code_simp

text \<open>
  The same for every node: whenever the node has no active run, its argument list is
  not empty, both resolved output paths are non-empty and can be created, and the
  command does not start, \<^verbatim>\<open>node.start\<close> blocks after closing both sinks, with no
  notification sent, the failed run active and no waiting goroutine for it.
\<close>

lemma launch_failure_blocks:
  assumes "Active (the_node w) = None" and "node.Args (the_node w) \<noteq> []"
      and "nodeRun.Stdout (new_run (the_node w)) \<noteq> []"
      and "create_ok os (nodeRun.Stdout (new_run (the_node w)))"
      and "nodeRun.Stderr (new_run (the_node w)) \<noteq> []"
      and "create_ok os (nodeRun.Stderr (new_run (the_node w)))"
      and "cmd_start os (nodeRun.Args (new_run (the_node w))) (node.Env (the_node w)) = Inl err"
  shows "\<exists>w'. node_start os w = Blocked w'
            \<and> events w' = events w @
                 [SinkOpened (next_addr w) Out (nodeRun.Stdout (new_run (the_node w))),
                  SinkOpened (next_addr w) Err (nodeRun.Stderr (new_run (the_node w))),
                  SinkClosed (next_addr w) Out, SinkClosed (next_addr w) Err]
            \<and> Active (the_node w') = Some (next_addr w)
            \<and> (\<exists>r. heap w' (next_addr w) = Some r \<and> Error r = Some err
                   \<and> \<not> waiter_pending r)"
proof -
  have cmd: "\<exists>c. Cmd (new_run (the_node w)) = Some c \<and> Process c = None
               \<and> exec_Cmd.Args c = nodeRun.Args (new_run (the_node w))"
    and env: "nodeRun.Env (new_run (the_node w)) = node.Env (the_node w)"
    by (simp_all add: new_run_def Let_def)
  then obtain c where c: "Cmd (new_run (the_node w)) = Some c" "Process c = None"
      "exec_Cmd.Args c = nodeRun.Args (new_run (the_node w))"
    by blast
  from c env assms(3-7)
  have "\<exists>r. nodeRun_start os False (next_addr w) (new_run (the_node w))
           = Blocked (r, [SinkOpened (next_addr w) Out (nodeRun.Stdout (new_run (the_node w))),
                          SinkOpened (next_addr w) Err (nodeRun.Stderr (new_run (the_node w))),
                          SinkClosed (next_addr w) Out, SinkClosed (next_addr w) Err])
         \<and> Error r = Some err \<and> \<not> waiter_pending r"
    by (simp add: run_eval waiter_pending_def)
  then obtain r where r: "nodeRun_start os False (next_addr w) (new_run (the_node w))
           = Blocked (r, [SinkOpened (next_addr w) Out (nodeRun.Stdout (new_run (the_node w))),
                          SinkOpened (next_addr w) Err (nodeRun.Stderr (new_run (the_node w))),
                          SinkClosed (next_addr w) Out, SinkClosed (next_addr w) Err])"
      and e: "Error r = Some err" "\<not> waiter_pending r"
    by blast
  show ?thesis
    unfolding node_start_new[OF assms(1,2)] r using e by (simp add: commit_def)
qed

text \<open>
  What does hold on the other path.  For every run that has not been started, whose
  stdout and stderr paths are both non-empty and can both be created, and whose command
  starts: start opens the two sinks, starts the process and sends nothing, and the
  waiting goroutine, when the process exits, closes both sinks and then sends the
  completion notification once, after which it is gone.
\<close>

lemma notify_on_exit:
  assumes "Cmd r = Some c" and "Process c = None" and "ProcessState c = None"
      and "nodeRun.Stdout r \<noteq> []" and "create_ok os (nodeRun.Stdout r)"
      and "nodeRun.Stderr r \<noteq> []" and "create_ok os (nodeRun.Stderr r)"
      and "cmd_start os (exec_Cmd.Args c) (nodeRun.Env r) = Inr pid"
  shows "\<exists>r1. nodeRun_start os receiving a r
                 = Returned (r1, [SinkOpened a Out (nodeRun.Stdout r),
                                  SinkOpened a Err (nodeRun.Stderr r), ProcStarted a pid])
             \<and> waiter_pending r1
             \<and> (\<forall>os' st. \<exists>r2. nodeRun_wait os' True st a r1
                     = Returned (r2, [SinkClosed a Out, SinkClosed a Err, NotifySent a])
                   \<and> \<not> waiter_pending r2)"
  using assms by (simp add: run_eval waiter_pending_def)

text \<open>
  For every node, after any sequence of operations from its construction, no run has
  been notified more than once and every notification of a run comes after the closing
  of both of its sinks.
\<close>

lemma notified_at_most_once:
  "let w = world_of (exec ops (world_of (newNode os name args env service so se at lo)))
   in \<forall>b. count_list (events w) (NotifySent b) \<le> 1
        \<and> (\<forall>pre post. events w = pre @ NotifySent b # post \<longrightarrow>
               SinkClosed b Out \<in> set pre \<and> SinkClosed b Err \<in> set pre)"
proof -
  have "notify_ok (world_of (exec ops (world_of
                      (newNode os name args env service so se at lo))))"
    by (rule notify_ok_exec) (rule notify_ok_newNode)
  then show ?thesis unfolding Let_def notify_ok_def by blast
qed

text \<open>
  A run whose output file cannot be created is not notified either: the application
  ends in \<^verbatim>\<open>log.Fatalf\<close> with the run in the history.
\<close>

lemma no_notification_after_sink_failure:
  "is_Fatal (newNode os_readonly ''1'' [''cockroach'', ''start''] None True
               ''logs/${RUN}.stdout'' ''logs/${RUN}.stderr'' [] [])
   \<and> Runs (the_node (world_of (newNode os_readonly ''1'' [''cockroach'', ''start''] None True
               ''logs/${RUN}.stdout'' ''logs/${RUN}.stderr'' [] []))) = [0]
   \<and> NotifySent 0 \<notin> set (events (world_of (newNode os_readonly ''1''
               [''cockroach'', ''start''] None True
               ''logs/${RUN}.stdout'' ''logs/${RUN}.stderr'' [] [])))"
  by code_simp

section \<open>Output paths of the runs of a node\<close>




section \<open>The status of a node\<close>

text \<open>
  Claim C9.  Status is a function of the current state of the node and its active run.
  It is \<^verbatim>\<open>Paused\<close> exactly when there is an active run with a process handle of
  positive pid whose paused flag is set, \<^verbatim>\<open>Running\<close> exactly when there is such a
  run whose paused flag is not set, and \<^verbatim>\<open>Stopped\<close> exactly when there is no such
  run.  Nothing is cached: pausing a running node makes it \<^verbatim>\<open>Paused\<close>, resuming a
  paused node makes it \<^verbatim>\<open>Running\<close>, and after stop it is \<^verbatim>\<open>Stopped\<close>.
\<close>

theorem Status_derived:
  "(Status w = ''Paused'' \<longleftrightarrow>
      (\<exists>a r c p. Active (the_node w) = Some a \<and> heap w a = Some r \<and> Cmd r = Some c
          \<and> Process c = Some p \<and> Pid p > 0 \<and> Paused r))
   \<and> (Status w = ''Running'' \<longleftrightarrow>
      (\<exists>a r c p. Active (the_node w) = Some a \<and> heap w a = Some r \<and> Cmd r = Some c
          \<and> Process c = Some p \<and> Pid p > 0 \<and> \<not> Paused r))
   \<and> (Status w = ''Stopped'' \<longleftrightarrow>
      \<not> (\<exists>a r c p. Active (the_node w) = Some a \<and> heap w a = Some r \<and> Cmd r = Some c
          \<and> Process c = Some p \<and> Pid p > 0))
   \<and> (Status w = ''Running'' \<longrightarrow> Status (world_of (node_pause w)) = ''Paused'')
   \<and> (Status w = ''Paused'' \<longrightarrow> Status (world_of (node_resume w)) = ''Running'')
   \<and> Status (world_of (node_stop w)) = ''Stopped''"
proof -
  have "(Status w = ''Paused'' \<longleftrightarrow>
      (\<exists>a r c p. Active (the_node w) = Some a \<and> heap w a = Some r \<and> Cmd r = Some c
          \<and> Process c = Some p \<and> Pid p > 0 \<and> Paused r))"
    by (auto simp: Status_def split: option.splits)
  moreover have "(Status w = ''Running'' \<longleftrightarrow>
      (\<exists>a r c p. Active (the_node w) = Some a \<and> heap w a = Some r \<and> Cmd r = Some c
          \<and> Process c = Some p \<and> Pid p > 0 \<and> \<not> Paused r))"
    by (auto simp: Status_def split: option.splits)
  moreover have "(Status w = ''Stopped'' \<longleftrightarrow>
      \<not> (\<exists>a r c p. Active (the_node w) = Some a \<and> heap w a = Some r \<and> Cmd r = Some c
          \<and> Process c = Some p \<and> Pid p > 0))"
    by (auto simp: Status_def split: option.splits)
  moreover have "Status w = ''Running'' \<longrightarrow> Status (world_of (node_pause w)) = ''Paused''"
    by (auto simp: Status_def node_pause_def commit_def nodeRun_pause_def
          split: option.splits if_splits)
  moreover have "Status w = ''Paused'' \<longrightarrow> Status (world_of (node_resume w)) = ''Running''"
    by (auto simp: Status_def node_resume_def commit_def nodeRun_resume_def
          split: option.splits if_splits)
  moreover have "Status (world_of (node_stop w)) = ''Stopped''"
    by (auto simp: Status_def node_stop_def commit_def nodeRun_stop_def
          split: option.splits)
  ultimately show ?thesis by blast
qed

theorem Status_derived_witness:
  "Status demo_start = ''Running''
   \<and> Status (world_of (node_pause demo_start)) = ''Paused''
   \<and> Status (world_of (node_resume (world_of (node_pause demo_start)))) = ''Running''"
proof -
  have run: "Status demo_start = ''Running''" by code_simp
  with Status_derived[of demo_start]
  have paused: "Status (world_of (node_pause demo_start)) = ''Paused''" by blast
  with Status_derived[of "world_of (node_pause demo_start)"]
  have "Status (world_of (node_resume (world_of (node_pause demo_start)))) = ''Running''"
    by blast
  with run paused show ?thesis by simp
qed

section \<open>The constructor\<close>

text \<open>
  Claim C10.  A node constructed with the service flag false is returned with no runs,
  no active run, an empty store and no events.  Constructing it with the service flag
  true is calling start on that node: whenever the constructor then returns, the history
  is the single run at address 0, with index 0, it is the active run, and its process
  has been started.
\<close>

theorem newNode_service_starts:
  "(\<exists>w0. newNode os name args env False so se at lo = Returned w0
        \<and> Runs (the_node w0) = [] \<and> Active (the_node w0) = None \<and> heap w0 = Map.empty
        \<and> events w0 = []
        \<and> newNode os name args env True so se at lo
            = node_start os (w0\<lparr>the_node := (the_node w0)\<lparr>Service := True\<rparr>\<rparr>))
   \<and> (\<forall>w. newNode os name args env True so se at lo = Returned w \<longrightarrow>
         Runs (the_node w) = [0] \<and> Active (the_node w) = Some 0
         \<and> (\<exists>r c pid. heap w 0 = Some r \<and> ID r = 0 \<and> Cmd r = Some c
               \<and> Process c = Some \<lparr>Pid = pid\<rparr> \<and> ProcStarted 0 pid \<in> set (events w)))"
proof (intro conjI allI impI)
  show "\<exists>w0. newNode os name args env False so se at lo = Returned w0
        \<and> Runs (the_node w0) = [] \<and> Active (the_node w0) = None \<and> heap w0 = Map.empty
        \<and> events w0 = []
        \<and> newNode os name args env True so se at lo
            = node_start os (w0\<lparr>the_node := (the_node w0)\<lparr>Service := True\<rparr>\<rparr>)"
    by (simp add: newNode_unfold Let_def)
next
  fix w
  assume ret: "newNode os name args env True so se at lo = Returned w"
  define env1 where "env1 = addDefaultVars os (case env of None \<Rightarrow> Map.empty | Some e \<Rightarrow> e)"
  define n where "n = \<lparr>Name = name, node.Args = args, node.Env = env1,
      node.Stdout = replaceVars so env1, node.Stderr = replaceVars se env1, URL = [],
      node.Attrs = at, node.Locality = lo, Active = None, Runs = [], Service = True\<rparr>"
  define w0 where
    "w0 = \<lparr>the_node = n, heap = Map.empty, next_addr = 0, restarts = 0, events = []\<rparr>"
  have start: "node_start os w0 = Returned w"
    using ret by (simp add: newNode_unfold Let_def w0_def n_def env1_def)
  have act: "Active (the_node w0) = None" and nx: "next_addr w0 = 0"
    and rn: "Runs (the_node w0) = []"
    by (simp_all add: w0_def n_def)
  from start act have nonempty: "node.Args (the_node w0) \<noteq> []"
    by (auto simp: node_start_def Let_def split: if_splits)
  from node_start_creates[OF act nonempty, of os] start
  show "Runs (the_node w) = [0]" and "Active (the_node w) = Some 0"
    by (simp_all add: nx rn)
  from start obtain r' t where
      rs: "nodeRun_start os False 0 (new_run (the_node w0)) = Returned (r', t)"
      and w: "heap w 0 = Some r'" "events w = t"
    unfolding node_start_new[OF act nonempty] nx
    by (cases "nodeRun_start os False 0 (new_run (the_node w0))")
       (auto simp: commit_def w0_def)
  from nodeRun_start_returned[OF rs] w rn
  show "\<exists>r c pid. heap w 0 = Some r \<and> ID r = 0 \<and> Cmd r = Some c
               \<and> Process c = Some \<lparr>Pid = pid\<rparr> \<and> ProcStarted 0 pid \<in> set (events w)"
    by auto
qed

theorem newNode_service_starts_witness:
  "\<exists>w. newNode os_fine ''1'' [''cockroach'', ''start''] None True
           ''logs/${RUN}.stdout'' ''logs/${RUN}.stderr'' [] [] = Returned w
      \<and> Runs (the_node w) = [0] \<and> Active (the_node w) = Some 0
      \<and> (\<exists>r. heap w 0 = Some r \<and> ID r = 0)"
proof -
  have "is_Returned (newNode os_fine ''1'' [''cockroach'', ''start''] None True
           ''logs/${RUN}.stdout'' ''logs/${RUN}.stderr'' [] [])"
    by code_simp
  then obtain w where w: "newNode os_fine ''1'' [''cockroach'', ''start''] None True
           ''logs/${RUN}.stdout'' ''logs/${RUN}.stderr'' [] [] = Returned w"
    by (cases "newNode os_fine ''1'' [''cockroach'', ''start''] None True
           ''logs/${RUN}.stdout'' ''logs/${RUN}.stderr'' [] []") simp_all
  with newNode_service_starts[of os_fine "''1''" "[''cockroach'', ''start'']" None
          "''logs/${RUN}.stdout''" "''logs/${RUN}.stderr''" "[]" "[]"]
  show ?thesis by blast
qed

end
